theory Spec2Isabelle
  imports Complex_Main "HOL-Library.Multiset" "HOL-Library.Sublist"
begin

section \<open>Data model\<close>

text \<open>
  A process is the object \<^verbatim>\<open>{ id, arrival, burst, priority }\<close> and a schedule segment the
  object \<^verbatim>\<open>{ pid, start, end }\<close>. The numeric fields are JavaScript numbers, that is IEEE
  754 doubles; the input form only produces integers. A number that is an integer is
  modelled by that integer, an \<open>int\<close>, and the arithmetic of the code by the rounding of
  doubles on these integers (section ``JavaScript numbers''). The field \<^verbatim>\<open>id\<close> is called
  \<open>proc_id\<close> and the field \<^verbatim>\<open>end\<close> is called \<open>seg_end\<close>, since \<open>id\<close> and \<open>end\<close> are
  taken in Isabelle.
\<close>

record process =
  proc_id :: string
  arrival :: int
  burst :: int
  priority :: int

record segment =
  pid :: string
  start :: int
  seg_end :: int

definition IDLE :: string where
  "IDLE = ''IDLE''"

definition idle_segment :: "int \<Rightarrow> int \<Rightarrow> segment" where
  "idle_segment s e = \<lparr>pid = IDLE, start = s, seg_end = e\<rparr>"

definition run_segment :: "process \<Rightarrow> int \<Rightarrow> int \<Rightarrow> segment" where
  "run_segment p s e = \<lparr>pid = proc_id p, start = s, seg_end = e\<rparr>"

text \<open>
  Faults of the JavaScript run-time that the code could meet: \<open>TypeError\<close> is reading a
  field of \<^verbatim>\<open>undefined\<close> (\<^verbatim>\<open>remaining[i].arrival\<close> past the end of the array, or
  \<^verbatim>\<open>p.id\<close> after \<^verbatim>\<open>shift()\<close> on an empty array), which throws. \<open>NotANumber\<close> is
  arithmetic on \<^verbatim>\<open>undefined\<close> (\<^verbatim>\<open>Math.min(q, undefined)\<close> when the remaining-burst
  table has no entry for the process), which does not throw but leaves the integers.
\<close>

datatype js_fault = TypeError | NotANumber

section \<open>JavaScript numbers\<close>

text \<open>
  A double has a significand of 53 bits. The sum or difference of two doubles is the double
  nearest to the exact result, and of two nearest ones the one with the even significand.
  For integers this is: an integer of \<open>n > 53\<close> binary digits is rounded to a multiple of
  \<open>2^(n - 53)\<close>; an integer of at most 53 digits is kept.
\<close>

definition round_half_even_div :: "int \<Rightarrow> int \<Rightarrow> int" where
  "round_half_even_div num den =
     (let k = num div den; r = num mod den
      in if 2 * r < den then k
         else if den < 2 * r then k + 1
         else if even k then k else k + 1)"

text \<open>The number of binary digits of a positive integer.\<close>

function bit_length :: "int \<Rightarrow> nat" where
  "bit_length m = (if m \<le> 0 then 0 else Suc (bit_length (m div 2)))"
  by pat_completeness auto
termination
  by (relation "measure nat") auto

declare bit_length.simps [simp del]

definition round53 :: "int \<Rightarrow> int" where
  "round53 m = round_half_even_div m (2 ^ (bit_length m - 53)) * 2 ^ (bit_length m - 53)"

text \<open>
  The largest finite double is \<open>2^1024 - 2^971\<close>. A result that rounds to \<open>2^1024\<close> or
  more is \<^verbatim>\<open>Infinity\<close> in JavaScript. \<^verbatim>\<open>Infinity\<close> is modelled by the integer \<open>2^1024\<close>,
  the least integer above all finite doubles, and \<^verbatim>\<open>-Infinity\<close> by \<open>- 2^1024\<close>, so that
  the comparisons of the code with them are the comparisons of integers. A number is
  infinite when it has more than 1024 binary digits.
\<close>

definition js_infinity :: int where
  "js_infinity = 2 ^ 1024"

definition infinite_number :: "int \<Rightarrow> bool" where
  "infinite_number x \<longleftrightarrow> 1024 < bit_length \<bar>x\<bar>"

definition round_double :: "int \<Rightarrow> int" where
  "round_double x =
     (let r = round53 \<bar>x\<bar>
      in sgn x * (if 1024 < bit_length r then js_infinity else r))"

text \<open>
  \<^verbatim>\<open>a + b\<close> and \<^verbatim>\<open>a - b\<close>. An infinite operand is the result. (The sum of \<^verbatim>\<open>Infinity\<close> and
  \<^verbatim>\<open>-Infinity\<close> is \<^verbatim>\<open>NaN\<close> in JavaScript; the engines never form it, since one operand of
  each of their sums is a field of a process or a slice, which is finite. In
  \<^verbatim>\<open>computeMetrics\<close>, where it can arise, it is modelled, by \<open>js_plus\<close> below.)
\<close>

definition js_add :: "int \<Rightarrow> int \<Rightarrow> int" where
  "js_add a b =
     (if infinite_number a then a
      else if infinite_number b then b
      else round_double (a + b))"

definition js_sub :: "int \<Rightarrow> int \<Rightarrow> int" where
  "js_sub a b = js_add a (- b)"

text \<open>
  The integers that are finite doubles: those that the rounding leaves as they are, below
  infinity. Every integer up to \<open>2^53\<close> in magnitude is one.
\<close>

definition is_double :: "int \<Rightarrow> bool" where
  "is_double x \<longleftrightarrow> round_double x = x \<and> \<bar>x\<bar> < js_infinity"

section \<open>Sorting\<close>

text \<open>
  \<^verbatim>\<open>const by = (k) => (a, b) => (a[k] === b[k] ? 0 : a[k] < b[k] ? -1 : 1);\<close>
\<close>

definition by_key :: "('a \<Rightarrow> int) \<Rightarrow> 'a \<Rightarrow> 'a \<Rightarrow> int" where
  "by_key k a b = (if k a = k b then 0 else if k a < k b then - 1 else 1)"

text \<open>
  The comparator of \<^verbatim>\<open>schedulePriority\<close>:
  \<^verbatim>\<open>(a.priority - b.priority) || (a.arrival - b.arrival) || (a.burst - b.burst)\<close>;
  \<^verbatim>\<open>x || y\<close> is \<open>x\<close> unless \<open>x\<close> is zero.
\<close>

definition priority_cmp :: "process \<Rightarrow> process \<Rightarrow> int" where
  "priority_cmp a b =
     (if js_sub (priority a) (priority b) \<noteq> 0 then js_sub (priority a) (priority b)
      else if js_sub (arrival a) (arrival b) \<noteq> 0 then js_sub (arrival a) (arrival b)
      else js_sub (burst a) (burst b))"

text \<open>
  \<^verbatim>\<open>Array.prototype.sort(cmp)\<close> is a stable sort (ECMAScript 2019): for a comparator that
  is a total preorder, as both comparators above are, its result is the one of every stable
  sort. It is modelled by stable insertion: each element is put before the first element of
  the sorted rest that it does not exceed.
\<close>

fun insert_by :: "('a \<Rightarrow> 'a \<Rightarrow> int) \<Rightarrow> 'a \<Rightarrow> 'a list \<Rightarrow> 'a list" where
  "insert_by cmp x [] = [x]"
| "insert_by cmp x (y # ys) = (if cmp x y \<le> 0 then x # y # ys else y # insert_by cmp x ys)"

definition js_sort :: "('a \<Rightarrow> 'a \<Rightarrow> int) \<Rightarrow> 'a list \<Rightarrow> 'a list" where
  "js_sort cmp xs = foldr (insert_by cmp) xs []"

section \<open>First come, first served\<close>

text \<open>
  The \<^verbatim>\<open>for (const p of procs)\<close> loop of \<^verbatim>\<open>scheduleFCFS\<close>, with the variables
  \<open>time\<close> and \<open>segments\<close> passed along. In the first branch \<open>time\<close> has become
  \<open>arrival p\<close> before the segment of \<open>p\<close> is pushed.
\<close>

fun fcfs_loop :: "process list \<Rightarrow> int \<Rightarrow> segment list \<Rightarrow> segment list" where
  "fcfs_loop [] time segments = segments"
| "fcfs_loop (p # procs) time segments =
     (if time < arrival p
      then fcfs_loop procs (js_add (arrival p) (burst p))
             (segments @ [idle_segment time (arrival p)]
                       @ [run_segment p (arrival p) (js_add (arrival p) (burst p))])
      else fcfs_loop procs (js_add time (burst p))
             (segments @ [run_segment p time (js_add time (burst p))]))"

definition scheduleFCFS :: "process list \<Rightarrow> segment list" where
  "scheduleFCFS processes = fcfs_loop (js_sort (by_key arrival) processes) 0 []"

section \<open>Moving arrivals to the ready list\<close>

text \<open>
  \<^verbatim>\<open>while (i < procs.length && procs[i].arrival <= t) { queue.push(procs[i]); i++; }\<close>
  This is \<^verbatim>\<open>enqueueArrivals\<close> of \<^verbatim>\<open>scheduleRoundRobin\<close>; the inner loop of
  \<^verbatim>\<open>scheduleSJF\<close> and \<^verbatim>\<open>schedulePriority\<close> is the same loop on \<open>remaining\<close> and \<open>ready\<close>.
  It returns the list and the index it leaves.
\<close>

function enqueueArrivals :: "process list \<Rightarrow> int \<Rightarrow> process list \<Rightarrow> nat \<Rightarrow> process list \<times> nat" where
  "enqueueArrivals procs t queue i =
     (if i < length procs \<and> arrival (procs ! i) \<le> t
      then enqueueArrivals procs t (queue @ [procs ! i]) (i + 1)
      else (queue, i))"
  by pat_completeness auto
termination
  by (relation "measure (\<lambda>(procs, t, queue, i). length procs - i)") auto

declare enqueueArrivals.simps [simp del]

lemma enqueueArrivals_eq:
  "enqueueArrivals procs t queue i =
     (queue @ takeWhile (\<lambda>p. arrival p \<le> t) (drop i procs),
      i + length (takeWhile (\<lambda>p. arrival p \<le> t) (drop i procs)))"
proof (induction procs t queue i rule: enqueueArrivals.induct)
  case (1 procs t queue i)
  show ?case
  proof (cases "i < length procs \<and> arrival (procs ! i) \<le> t")
    case True
    then have d: "drop i procs = procs ! i # drop (Suc i) procs"
      by (simp add: Cons_nth_drop_Suc)
    from True 1 show ?thesis
      by (subst enqueueArrivals.simps) (simp add: d)
  next
    case False
    show ?thesis
    proof (cases "i < length procs")
      case True
      then have d: "drop i procs = procs ! i # drop (Suc i) procs"
        by (simp add: Cons_nth_drop_Suc)
      from False True show ?thesis
        by (subst enqueueArrivals.simps) (simp add: d)
    next
      case False
      then show ?thesis
        by (subst enqueueArrivals.simps) simp
    qed
  qed
qed

lemma length_insert_by: "length (insert_by cmp x xs) = Suc (length xs)"
  by (induction xs) auto

lemma length_js_sort: "length (js_sort cmp xs) = length xs"
  by (induction xs) (auto simp: js_sort_def length_insert_by)

lemma mset_insert_by: "mset (insert_by cmp x xs) = add_mset x (mset xs)"
  by (induction xs) auto

lemma mset_js_sort: "mset (js_sort cmp xs) = mset xs"
  by (induction xs) (auto simp: js_sort_def mset_insert_by)

lemma set_js_sort: "set (js_sort cmp xs) = set xs"
  by (metis mset_js_sort set_mset_mset)

lemma js_sort_Nil_iff: "js_sort cmp xs = [] \<longleftrightarrow> xs = []"
  by (metis length_js_sort length_0_conv)

section \<open>Shortest job first and priority, non-preemptive\<close>

text \<open>
  \<^verbatim>\<open>scheduleSJF\<close> and \<^verbatim>\<open>schedulePriority\<close> are the same loop, line for line, up to the
  comparator given to \<^verbatim>\<open>ready.sort\<close>; \<open>select_loop\<close> is that loop with the comparator as
  a parameter. \<^verbatim>\<open>ready.sort(cmp)\<close> sorts in place and \<^verbatim>\<open>ready.shift()\<close> removes the
  head, so the ready list of the next round is the tail of the sorted list.
\<close>

function select_loop ::
  "(process \<Rightarrow> process \<Rightarrow> int) \<Rightarrow> process list \<Rightarrow> nat \<Rightarrow> process list \<Rightarrow> int \<Rightarrow> segment list
     \<Rightarrow> js_fault + segment list" where
  "select_loop cmp remaining i ready time segments =
     (if i < length remaining \<or> ready \<noteq> [] then
        (case enqueueArrivals remaining time ready i of
           (ready1, i1) \<Rightarrow>
             if ready1 = [] then
               (if i1 < length remaining then
                  (let nextArrival = arrival (remaining ! i1)
                   in select_loop cmp remaining i1 ready1 nextArrival
                        (segments @ [idle_segment time nextArrival]))
                else Inl TypeError)
             else
               (case js_sort cmp ready1 of
                  [] \<Rightarrow> Inl TypeError
                | p # rest \<Rightarrow>
                    select_loop cmp remaining i1 rest (js_add time (burst p))
                      (segments @ [run_segment p time (js_add time (burst p))])))
      else Inr segments)"
  by pat_completeness auto
termination
proof (relation "measure (\<lambda>(cmp, remaining, i, ready, time, segments).
          2 * (length remaining - i) + 2 * length ready
          + (if ready = [] \<and> i < length remaining \<and> time < arrival (remaining ! i) then 1 else 0))",
       goal_cases)
  case 1
  show ?case by simp
next
  case (2 cmp remaining i ready time segments ready1 i1 nextArrival)
  let ?tw = "takeWhile (\<lambda>p. arrival p \<le> time) (drop i remaining)"
  from 2 have "(ready1, i1) = (ready @ ?tw, i + length ?tw)"
    by (simp add: enqueueArrivals_eq)
  with 2 have r: "ready = []" and tw: "?tw = []" and i1: "i1 = i"
    by auto
  from 2 i1 have lt: "i < length remaining" by simp
  then have d: "drop i remaining = remaining ! i # drop (Suc i) remaining"
    by (simp add: Cons_nth_drop_Suc)
  from tw d have "time < arrival (remaining ! i)"
    by (auto split: if_splits)
  with 2 r i1 lt show ?case by simp
next
  case (3 cmp remaining i ready time segments ready1 i1 p rest)
  let ?tw = "takeWhile (\<lambda>p. arrival p \<le> time) (drop i remaining)"
  from 3 have "(ready1, i1) = (ready @ ?tw, i + length ?tw)"
    by (simp add: enqueueArrivals_eq)
  then have r1: "ready1 = ready @ ?tw" and i1: "i1 = i + length ?tw"
    by auto
  from 3 have "length (js_sort cmp ready1) = Suc (length rest)" by simp
  then have len: "length ready1 = Suc (length rest)"
    by (simp add: length_js_sort)
  show ?case
  proof (cases "i \<le> length remaining")
    case True
    then have "i + length ?tw \<le> length remaining"
      using length_takeWhile_le [of "\<lambda>p. arrival p \<le> time" "drop i remaining"] by simp
    with r1 i1 len show ?thesis
      by (auto split: if_splits)
  next
    case False
    then have "?tw = []" by simp
    with False r1 i1 len show ?thesis
      by (auto split: if_splits)
  qed
qed

declare select_loop.simps [simp del]

definition scheduleSJF :: "process list \<Rightarrow> js_fault + segment list" where
  "scheduleSJF processes = select_loop (by_key burst) (js_sort (by_key arrival) processes) 0 [] 0 []"

definition schedulePriority :: "process list \<Rightarrow> js_fault + segment list" where
  "schedulePriority processes = select_loop priority_cmp (js_sort (by_key arrival) processes) 0 [] 0 []"

section \<open>Round robin\<close>

text \<open>
  The variables of \<^verbatim>\<open>scheduleRoundRobin\<close> that its loop changes: the table
  \<^verbatim>\<open>remainingBurst\<close> (a \<^verbatim>\<open>Map\<close> from id to remaining burst), \<^verbatim>\<open>queue\<close>, \<^verbatim>\<open>time\<close>,
  the index \<^verbatim>\<open>i\<close> of the next pending process and \<^verbatim>\<open>segments\<close>.
\<close>

record rr_state =
  rr_remainingBurst :: "string \<rightharpoonup> int"
  rr_queue :: "process list"
  rr_time :: int
  rr_i :: nat
  rr_segments :: "segment list"

text \<open>\<^verbatim>\<open>enqueueArrivals(t)\<close> acting on the queue and the index of the state.\<close>

definition rr_enqueue :: "process list \<Rightarrow> int \<Rightarrow> rr_state \<Rightarrow> rr_state" where
  "rr_enqueue procs t s =
     (case enqueueArrivals procs t (rr_queue s) (rr_i s) of
        (queue1, i1) \<Rightarrow> s\<lparr>rr_queue := queue1, rr_i := i1\<rparr>)"

text \<open>
  One round of the \<^verbatim>\<open>while (queue.length > 0 || i < procs.length)\<close> loop. With an empty
  queue it idles until the next arrival; otherwise it takes the head of the queue, runs it
  for \<^verbatim>\<open>Math.min(q, rem)\<close>, enqueues the arrivals up to the new time and only then puts
  the process back, when it has burst left.
\<close>

definition rr_step :: "process list \<Rightarrow> int \<Rightarrow> rr_state \<Rightarrow> js_fault + rr_state" where
  "rr_step procs q s =
     (case rr_queue s of
        [] \<Rightarrow>
          (if rr_i s < length procs then
             (let nextArrival = arrival (procs ! rr_i s);
                  s1 = (if rr_time s < nextArrival
                        then s\<lparr>rr_segments := rr_segments s @ [idle_segment (rr_time s) nextArrival]\<rparr>
                        else s);
                  s2 = s1\<lparr>rr_time := nextArrival\<rparr>
              in Inr (rr_enqueue procs nextArrival s2))
           else Inl TypeError)
      | current # rest \<Rightarrow>
          (case rr_remainingBurst s (proc_id current) of
             None \<Rightarrow> Inl NotANumber
           | Some rem \<Rightarrow>
               (let slice = min q rem;
                    s1 = s\<lparr>rr_queue := rest,
                           rr_segments := rr_segments s
                             @ [run_segment current (rr_time s) (js_add (rr_time s) slice)],
                           rr_time := js_add (rr_time s) slice\<rparr>;
                    s2 = rr_enqueue procs (rr_time s1) s1;
                    newRem = js_sub rem slice
                in if newRem > 0
                   then Inr (s2\<lparr>rr_remainingBurst := (rr_remainingBurst s2)(proc_id current \<mapsto> newRem),
                                 rr_queue := rr_queue s2 @ [current]\<rparr>)
                   else Inr (s2\<lparr>rr_remainingBurst := (rr_remainingBurst s2)(proc_id current := None)\<rparr>))))"

text \<open>
  The loop may run forever (it does for \<open>q \<le> 0\<close>, and for a remaining burst so large
  that taking the slice off does not change the double), so it is a partial function:
  \<open>None\<close> is not returning.
\<close>

partial_function (option) rr_loop :: "process list \<Rightarrow> int \<Rightarrow> rr_state \<Rightarrow> (js_fault + segment list) option" where
  "rr_loop procs q s =
     (if rr_queue s \<noteq> [] \<or> rr_i s < length procs then
        (case rr_step procs q s of
           Inl e \<Rightarrow> Some (Inl e)
         | Inr s' \<Rightarrow> rr_loop procs q s')
      else Some (Inr (rr_segments s)))"

declare rr_loop.simps [code]

text \<open>
  \<^verbatim>\<open>new Map(procs.map(p => [p.id, p.burst]))\<close>: a later entry replaces an earlier one
  with the same key.
\<close>

definition rr_init :: "process list \<Rightarrow> rr_state" where
  "rr_init procs =
     rr_enqueue procs 0
       \<lparr>rr_remainingBurst = foldl (\<lambda>m p. m(proc_id p \<mapsto> burst p)) Map.empty procs,
        rr_queue = [], rr_time = 0, rr_i = 0, rr_segments = []\<rparr>"

definition scheduleRoundRobin :: "process list \<Rightarrow> int \<Rightarrow> (js_fault + segment list) option" where
  "scheduleRoundRobin processes q =
     (let procs = js_sort (by_key arrival) processes
      in rr_loop procs q (rr_init procs))"

section \<open>Ticks\<close>



section \<open>Metrics\<close>

text \<open>
  The quotient \<^verbatim>\<open>total / n\<close> is the double nearest to the exact quotient, ties to the
  even significand of 53 bits; a finite double is modelled by the rational it denotes, and
  an infinite total gives the same infinity. \<open>js_div a b\<close> is defined for \<open>b > 0\<close>, which
  is the only case the code has (\<open>b\<close> is the length of an array, or 1); the quotient of a
  finite double that is an integer by such a length neither overflows nor is subnormal.
\<close>

text \<open>\<open>float_exponent m b\<close> is the \<open>e\<close> with \<open>2^e \<le> m / b < 2^(e + 1)\<close>, for positive \<open>m\<close> and \<open>b\<close>.\<close>

definition float_exponent :: "int \<Rightarrow> int \<Rightarrow> int" where
  "float_exponent m b =
     (let k = int (bit_length m) - int (bit_length b)
      in if (if 0 \<le> k then b * 2 ^ nat k \<le> m else b \<le> m * 2 ^ nat (- k)) then k else k - 1)"

definition js_div :: "int \<Rightarrow> int \<Rightarrow> rat" where
  "js_div a b =
     (if a = 0 then 0
      else if infinite_number a then of_int a
      else
        (let m = \<bar>a\<bar>;
             sh = 52 - float_exponent m b;
             sig = (if 0 \<le> sh then round_half_even_div (m * 2 ^ nat sh) b
                    else round_half_even_div m (b * 2 ^ nat (- sh)))
         in of_int (sgn a * sig) * (if 0 \<le> sh then 1 / 2 ^ nat sh else 2 ^ nat (- sh))))"

text \<open>
  \<^verbatim>\<open>x.toFixed(2)\<close> (ECMA-262, Number.prototype.toFixed): the sign is taken off, then
  ``let n be an integer for which n / 10^f - x is as close to zero as possible; if there are
  two such n, pick the larger n''. The digits are those of \<open>n / 100\<close>. The unary \<^verbatim>\<open>+\<close>
  reads the digits back as the double nearest to that decimal; the model keeps the decimal
  itself, which is what the number prints as. (From \<open>10^21\<close> on, and for an infinity,
  \<^verbatim>\<open>toFixed\<close> gives the digits of the number itself, which is an integer there: the same
  value.)
\<close>

definition toFixed2 :: "rat \<Rightarrow> rat" where
  "toFixed2 x =
     (if x < 0 then - (of_int \<lfloor>- x * 100 + 1 / 2\<rfloor> / 100)
      else of_int \<lfloor>x * 100 + 1 / 2\<rfloor> / 100)"

text \<open>
  In \<^verbatim>\<open>computeMetrics\<close> a number can be \<^verbatim>\<open>NaN\<close>. There a number is an \<open>int option\<close> or a
  \<open>rat option\<close>, and \<open>None\<close> is \<^verbatim>\<open>NaN\<close>. \<^verbatim>\<open>NaN\<close> plus or minus anything is \<^verbatim>\<open>NaN\<close>, and
  so is the sum of the two infinities.
\<close>

definition js_plus :: "int option \<Rightarrow> int option \<Rightarrow> int option" where
  "js_plus x y =
     (case x of
        None \<Rightarrow> None
      | Some a \<Rightarrow>
          (case y of
             None \<Rightarrow> None
           | Some b \<Rightarrow>
               if infinite_number a \<and> infinite_number b \<and> sgn a \<noteq> sgn b then None
               else Some (js_add a b)))"

definition js_minus :: "int option \<Rightarrow> int option \<Rightarrow> int option" where
  "js_minus x y = js_plus x (map_option uminus y)"

record metrics =
  avgWaiting :: "rat option"
  avgTurnaround :: "rat option"

text \<open>
  The table \<^verbatim>\<open>finish\<close> is the object literal \<^verbatim>\<open>{}\<close>, so it inherits the properties of
  \<^verbatim>\<open>Object.prototype\<close>, whose names are listed here. Its own properties are a map from
  ids to numbers.
\<close>

definition object_prototype_keys :: "string list" where
  "object_prototype_keys =
     [''constructor'', ''__defineGetter__'', ''__defineSetter__'', ''hasOwnProperty'',
      ''__lookupGetter__'', ''__lookupSetter__'', ''isPrototypeOf'', ''propertyIsEnumerable'',
      ''toString'', ''valueOf'', ''__proto__'', ''toLocaleString'']"

text \<open>
  The first loop of \<^verbatim>\<open>computeMetrics\<close>: \<^verbatim>\<open>finish[s.pid] = s.end\<close> for every segment
  that is not idle, in the order of the list. The assignment makes or replaces an own
  property, except for the key \<^verbatim>\<open>__proto__\<close>: there it runs the setter inherited from
  \<^verbatim>\<open>Object.prototype\<close>, which does nothing when the value is a number.
\<close>

fun finish_loop :: "segment list \<Rightarrow> (string \<rightharpoonup> int) \<Rightarrow> (string \<rightharpoonup> int)" where
  "finish_loop [] finish = finish"
| "finish_loop (s # segments) finish =
     (if pid s = IDLE then finish_loop segments finish
      else if pid s = ''__proto__'' then finish_loop segments finish
      else finish_loop segments (finish(pid s \<mapsto> seg_end s)))"

text \<open>
  \<^verbatim>\<open>(finish[p.id] ?? 0)\<close> as the operand of the subtraction that follows: the own property
  when there is one; otherwise the inherited property, a function or, for \<^verbatim>\<open>__proto__\<close>,
  the object \<^verbatim>\<open>Object.prototype\<close>, which \<^verbatim>\<open>??\<close> keeps and which the subtraction converts
  to \<^verbatim>\<open>NaN\<close>; otherwise \<^verbatim>\<open>undefined\<close>, which \<^verbatim>\<open>??\<close> replaces by 0.
\<close>

definition finish_value :: "(string \<rightharpoonup> int) \<Rightarrow> string \<Rightarrow> int option" where
  "finish_value finish x =
     (case finish x of
        Some e \<Rightarrow> Some e
      | None \<Rightarrow> if x \<in> set object_prototype_keys then None else Some 0)"

text \<open>
  The second loop: \<^verbatim>\<open>tat = (finish[p.id] ?? 0) - p.arrival; wt = tat - p.burst\<close>, added
  to the totals \<open>(totalWT, totalTAT)\<close>.
\<close>

fun totals_loop ::
  "(string \<rightharpoonup> int) \<Rightarrow> process list \<Rightarrow> int option \<times> int option \<Rightarrow> int option \<times> int option" where
  "totals_loop finish [] (totalWT, totalTAT) = (totalWT, totalTAT)"
| "totals_loop finish (p # processes) (totalWT, totalTAT) =
     (let tat = js_minus (finish_value finish (proc_id p)) (Some (arrival p));
          wt = js_minus tat (Some (burst p))
      in totals_loop finish processes (js_plus totalWT wt, js_plus totalTAT tat))"

definition computeMetrics :: "process list \<Rightarrow> segment list \<Rightarrow> metrics" where
  "computeMetrics processes segments =
     (let finish = finish_loop segments Map.empty;
          (totalWT, totalTAT) = totals_loop finish processes (Some 0, Some 0);
          n = (if length processes \<noteq> 0 then int (length processes) else 1)
      in \<lparr>avgWaiting = map_option (\<lambda>total. toFixed2 (js_div total n)) totalWT,
          avgTurnaround = map_option (\<lambda>total. toFixed2 (js_div total n)) totalTAT\<rparr>)"

section \<open>Rounding to a double\<close>

lemma bit_length_bounds:
  "0 < m \<Longrightarrow> 2 ^ (bit_length m - 1) \<le> m \<and> m < 2 ^ bit_length m"
proof (induction m rule: bit_length.induct)
  case (1 m)
  show ?case
  proof (cases "m div 2 \<le> 0")
    case True
    with 1(2) have "m = 1" by simp
    then show ?thesis
      by (simp add: bit_length.simps [of 1] bit_length.simps [of 0])
  next
    case False
    with 1 have ih: "2 ^ (bit_length (m div 2) - 1) \<le> m div 2" "m div 2 < 2 ^ bit_length (m div 2)"
      by simp_all
    from False have pos: "0 < bit_length (m div 2)"
      by (simp add: bit_length.simps [of "m div 2"])
    then have "(2 :: int) ^ bit_length (m div 2) = 2 * 2 ^ (bit_length (m div 2) - 1)"
      by (metis Suc_pred' power_Suc)
    with ih have "2 ^ bit_length (m div 2) \<le> m" "m < 2 * 2 ^ bit_length (m div 2)"
      by linarith+
    with 1(2) show ?thesis
      by (simp add: bit_length.simps [of m])
  qed
qed

lemma bit_length_nonpos: "m \<le> 0 \<Longrightarrow> bit_length m = 0"
  by (simp add: bit_length.simps [of m])

lemma bit_length_gt_iff: "k < bit_length m \<longleftrightarrow> 2 ^ k \<le> m"
proof (cases "0 < m")
  case False
  then have "bit_length m = 0" by (simp add: bit_length_nonpos)
  moreover have "(0 :: int) < 2 ^ k" by simp
  ultimately show ?thesis using False by linarith
next
  case True
  note b = bit_length_bounds [OF True]
  from True have pos: "0 < bit_length m"
    by (simp add: bit_length.simps [of m])
  show ?thesis
  proof
    assume "k < bit_length m"
    then have "k \<le> bit_length m - 1" by simp
    then have "(2 :: int) ^ k \<le> 2 ^ (bit_length m - 1)"
      by (simp add: power_increasing)
    with b show "2 ^ k \<le> m" by linarith
  next
    assume "2 ^ k \<le> m"
    with b have "(2 :: int) ^ k < 2 ^ bit_length m" by linarith
    then show "k < bit_length m"
      by (simp add: power_strict_increasing_iff)
  qed
qed

lemma bit_length_le_iff: "bit_length m \<le> k \<longleftrightarrow> m < 2 ^ k"
  using bit_length_gt_iff [of k m] by linarith

lemma bit_length_mono:
  assumes "a \<le> b"
  shows "bit_length a \<le> bit_length b"
proof (rule ccontr)
  assume "\<not> bit_length a \<le> bit_length b"
  then have "2 ^ bit_length b \<le> a"
    by (simp add: bit_length_gt_iff [symmetric])
  with assms have "2 ^ bit_length b \<le> b" by simp
  then show False
    by (simp add: bit_length_gt_iff [symmetric])
qed

lemma round_half_even_div_bounds:
  "num div den \<le> round_half_even_div num den"
  "round_half_even_div num den \<le> num div den + 1"
  by (simp_all add: round_half_even_div_def Let_def)

lemma round_half_even_div_dvd:
  "0 < den \<Longrightarrow> den dvd num \<Longrightarrow> round_half_even_div num den = num div den"
  by (simp add: round_half_even_div_def Let_def)

lemma round_half_even_div_mono:
  assumes "0 < den" and "a \<le> b"
  shows "round_half_even_div a den \<le> round_half_even_div b den"
proof (cases "a div den < b div den")
  case True
  then have "round_half_even_div a den \<le> b div den"
    using round_half_even_div_bounds(2) [of a den] by linarith
  with round_half_even_div_bounds(1) [of b den] show ?thesis by linarith
next
  case False
  from assms have "a div den \<le> b div den"
    by (simp add: zdiv_mono1)
  with False have eq: "a div den = b div den" by simp
  have "a = den * (a div den) + a mod den" "b = den * (b div den) + b mod den"
    by simp_all
  with eq assms(2) have "a mod den \<le> b mod den"
    by (metis add_le_cancel_left)
  with eq show ?thesis
    by (auto simp: round_half_even_div_def Let_def)
qed

lemma round53_dvd: "2 ^ (bit_length m - 53) dvd m \<Longrightarrow> round53 m = m"
  by (simp add: round53_def round_half_even_div_dvd)

lemma round53_small: "m \<le> 2 ^ 53 \<Longrightarrow> round53 m = m"
proof (cases "m < 2 ^ 53")
  case True
  then have "bit_length m \<le> 53"
    by (simp add: bit_length_le_iff)
  then show ?thesis
    by (intro round53_dvd) simp
next
  case False
  assume "m \<le> 2 ^ 53"
  with False have m: "m = 2 ^ 53" by simp
  have "bit_length m \<le> 54"
    by (simp add: bit_length_le_iff m)
  moreover have "53 < bit_length m"
    by (simp add: bit_length_gt_iff m)
  ultimately have "bit_length m - 53 = 1" by simp
  then show ?thesis
    by (intro round53_dvd) (simp add: m)
qed


lemma round53_zero: "round53 0 = 0"
  by (simp add: round53_def round_half_even_div_def)

lemma round53_range:
  assumes "0 < m"
  shows "2 ^ (bit_length m - 1) \<le> round53 m \<and> round53 m \<le> 2 ^ bit_length m"
proof (cases "bit_length m \<le> 53")
  case True
  then have "round53 m = m"
    by (intro round53_dvd) simp
  with bit_length_bounds [OF assms] show ?thesis by simp
next
  case False
  define sh where "sh = bit_length m - 53"
  from False have n: "bit_length m = 53 + sh" "bit_length m - 1 = 52 + sh"
    by (simp_all add: sh_def)
  from bit_length_bounds [OF assms]
  have low: "2 ^ 52 * 2 ^ sh \<le> m" and up: "m < 2 ^ 53 * 2 ^ sh"
    by (simp_all add: n power_add)
  have pos: "(0 :: int) < 2 ^ sh" by simp
  from low have "2 ^ 52 \<le> m div 2 ^ sh"
    using pos by (simp add: pos_imp_zdiv_pos_iff zdiv_mono1 div_mult_self_is_m
        order_trans [OF _ zdiv_mono1 [OF low pos]])
  then have k1: "2 ^ 52 \<le> round_half_even_div m (2 ^ sh)"
    using round_half_even_div_bounds(1) [of m "2 ^ sh"] by linarith
  have "m div 2 ^ sh < 2 ^ 53"
  proof (rule ccontr)
    assume "\<not> m div 2 ^ sh < 2 ^ 53"
    then have "2 ^ sh * 2 ^ 53 \<le> 2 ^ sh * (m div 2 ^ sh)"
      by (intro mult_left_mono) simp_all
    also have "\<dots> \<le> m"
      using pos_mod_sign [OF pos, of m] by (simp add: minus_mod_eq_mult_div [symmetric])
    finally show False
      using up by (simp add: mult.commute)
  qed
  then have k2: "round_half_even_div m (2 ^ sh) \<le> 2 ^ 53"
    using round_half_even_div_bounds(2) [of m "2 ^ sh"] by linarith
  have "round53 m = round_half_even_div m (2 ^ sh) * 2 ^ sh"
    by (simp add: round53_def sh_def)
  moreover from k1 pos have "2 ^ 52 * 2 ^ sh \<le> round_half_even_div m (2 ^ sh) * 2 ^ sh"
    by (intro mult_right_mono) simp_all
  moreover from k2 pos have "round_half_even_div m (2 ^ sh) * 2 ^ sh \<le> 2 ^ 53 * 2 ^ sh"
    by (intro mult_right_mono) simp_all
  ultimately show ?thesis
    by (simp add: n power_add)
qed

lemma round53_nonneg: "0 \<le> m \<Longrightarrow> 0 \<le> round53 m"
proof (cases "m = 0")
  case True
  then show ?thesis by (simp add: round53_zero)
next
  case False
  assume "0 \<le> m"
  with False have "0 < m" by simp
  from round53_range [OF this] have "2 ^ (bit_length m - 1) \<le> round53 m" ..
  moreover have "(0 :: int) < 2 ^ (bit_length m - 1)" by simp
  ultimately show ?thesis by linarith
qed

lemma round53_mono:
  assumes "0 \<le> x" and "x \<le> y"
  shows "round53 x \<le> round53 y"
proof (cases "x = 0")
  case True
  with assms show ?thesis
    by (simp add: round53_zero round53_nonneg)
next
  case False
  with assms have x: "0 < x" and y: "0 < y" by simp_all
  from assms(2) have le: "bit_length x \<le> bit_length y"
    by (rule bit_length_mono)
  show ?thesis
  proof (cases "bit_length x = bit_length y")
    case True
    have "round_half_even_div x (2 ^ (bit_length y - 53)) \<le> round_half_even_div y (2 ^ (bit_length y - 53))"
      using assms(2) by (intro round_half_even_div_mono) simp_all
    then show ?thesis
      unfolding round53_def True by (intro mult_right_mono) simp_all
  next
    case False
    with le have "bit_length x \<le> bit_length y - 1" by simp
    then have "(2 :: int) ^ bit_length x \<le> 2 ^ (bit_length y - 1)"
      by (simp add: power_increasing)
    with round53_range [OF x] round53_range [OF y] show ?thesis
      by linarith
  qed
qed

lemma round53_idem:
  assumes "0 \<le> m"
  shows "round53 (round53 m) = round53 m"
proof (cases "m = 0")
  case True
  then show ?thesis by (simp add: round53_zero)
next
  case False
  with assms have m: "0 < m" by simp
  define sh where "sh = bit_length m - 53"
  define r where "r = round53 m"
  have r: "r = round_half_even_div m (2 ^ sh) * 2 ^ sh"
    by (simp add: r_def round53_def sh_def)
  from round53_range [OF m] have up: "r \<le> 2 ^ bit_length m"
    by (simp add: r_def)
  have "2 ^ (bit_length r - 53) dvd r"
  proof (cases "r < 2 ^ bit_length m")
    case True
    then have "bit_length r \<le> bit_length m"
      by (simp add: bit_length_le_iff)
    then have "bit_length r - 53 \<le> sh"
      by (simp add: sh_def)
    then have "(2 :: int) ^ (bit_length r - 53) dvd 2 ^ sh"
      by (rule le_imp_power_dvd)
    also have "\<dots> dvd r"
      by (simp add: r)
    finally show ?thesis .
  next
    case False
    with up have eq: "r = 2 ^ bit_length m" by simp
    then have "bit_length r \<le> bit_length m + 1"
      by (simp add: bit_length_le_iff)
    then have "bit_length r - 53 \<le> bit_length m" by simp
    then have "(2 :: int) ^ (bit_length r - 53) dvd 2 ^ bit_length m"
      by (rule le_imp_power_dvd)
    with eq show ?thesis by simp
  qed
  then show ?thesis
    unfolding r_def [symmetric] by (rule round53_dvd)
qed

text \<open>Infinity is the least integer that no finite double reaches.\<close>

lemma js_infinity_pos: "0 < js_infinity"
  by (simp add: js_infinity_def)

lemma js_infinity_large: "2 ^ 53 < js_infinity"
  unfolding js_infinity_def by (rule power_strict_increasing) simp_all

lemma infinite_number_iff: "infinite_number x \<longleftrightarrow> js_infinity \<le> \<bar>x\<bar>"
  by (simp add: infinite_number_def js_infinity_def bit_length_gt_iff)

definition cap_double :: "int \<Rightarrow> int" where
  "cap_double r = (if js_infinity \<le> r then js_infinity else r)"

lemma round_double_cap:
  "round_double x = sgn x * cap_double (round53 \<bar>x\<bar>)"
  by (simp add: round_double_def Let_def cap_double_def js_infinity_def bit_length_gt_iff)

lemma cap_double_mono: "a \<le> b \<Longrightarrow> cap_double a \<le> cap_double b"
  by (simp add: cap_double_def)

lemma round53_infinity: "round53 js_infinity = js_infinity"
proof -
  have "bit_length js_infinity \<le> 1025"
    by (simp add: bit_length_le_iff js_infinity_def)
  then have "bit_length js_infinity - 53 \<le> 1024" by simp
  then have "(2 :: int) ^ (bit_length js_infinity - 53) dvd 2 ^ 1024"
    by (rule le_imp_power_dvd)
  then show ?thesis
    by (intro round53_dvd) (simp add: js_infinity_def)
qed

lemma round_double_nonneg_eq: "0 \<le> x \<Longrightarrow> round_double x = cap_double (round53 x)"
  using js_infinity_pos
  by (cases "x = 0") (simp_all add: round_double_cap round53_zero cap_double_def)

lemma round_double_nonneg: "0 \<le> x \<Longrightarrow> 0 \<le> round_double x"
  using round53_nonneg [of x] js_infinity_pos
  by (simp add: round_double_nonneg_eq cap_double_def)

lemma round_double_mono:
  "0 \<le> x \<Longrightarrow> x \<le> y \<Longrightarrow> round_double x \<le> round_double y"
  by (simp add: round_double_nonneg_eq cap_double_mono round53_mono)

lemma round_double_idem:
  assumes "0 \<le> x"
  shows "round_double (round_double x) = round_double x"
proof -
  from assms have nn: "0 \<le> round_double x"
    by (rule round_double_nonneg)
  show ?thesis
  proof (cases "js_infinity \<le> round53 x")
    case True
    with assms have "round_double x = js_infinity"
      by (simp add: round_double_nonneg_eq cap_double_def)
    moreover have "round_double js_infinity = js_infinity"
      using js_infinity_pos
      by (simp add: round_double_nonneg_eq cap_double_def round53_infinity)
    ultimately show ?thesis by simp
  next
    case False
    with assms have "round_double x = round53 x"
      by (simp add: round_double_nonneg_eq cap_double_def)
    with assms nn False show ?thesis
      by (simp add: round_double_nonneg_eq round53_idem cap_double_def)
  qed
qed

lemma round_double_le_infinity: "0 \<le> x \<Longrightarrow> round_double x \<le> js_infinity"
  by (simp add: round_double_nonneg_eq cap_double_def)

lemma round_double_exact:
  assumes "\<bar>x\<bar> \<le> 2 ^ 53"
  shows "round_double x = x"
proof -
  from assms have "round53 \<bar>x\<bar> = \<bar>x\<bar>"
    by (rule round53_small)
  moreover from assms have "\<bar>x\<bar> < js_infinity"
    using js_infinity_large by linarith
  ultimately show ?thesis
    by (simp add: round_double_cap cap_double_def sgn_if)
qed

lemma round_double_pos: "1 \<le> x \<Longrightarrow> 1 \<le> round_double x"
  using round_double_mono [of 1 x] round_double_exact [of 1] by simp

lemma round_double_pos_iff:
  assumes "0 \<le> x"
  shows "0 < round_double x \<longleftrightarrow> 0 < x"
proof (cases "x = 0")
  case True
  then show ?thesis
    using round_double_exact [of 0] by simp
next
  case False
  with assms have "1 \<le> x" by simp
  from round_double_pos [OF this] assms False show ?thesis by simp
qed


section \<open>Sums and differences\<close>

lemma small_not_infinite: "\<bar>a\<bar> \<le> 2 ^ 53 \<Longrightarrow> \<not> infinite_number a"
  using js_infinity_large by (simp add: infinite_number_iff)

lemma js_add_exact:
  "\<bar>a\<bar> \<le> 2 ^ 53 \<Longrightarrow> \<bar>b\<bar> \<le> 2 ^ 53 \<Longrightarrow> \<bar>a + b\<bar> \<le> 2 ^ 53 \<Longrightarrow> js_add a b = a + b"
  by (simp add: js_add_def small_not_infinite round_double_exact)

lemma js_sub_exact:
  "\<bar>a\<bar> \<le> 2 ^ 53 \<Longrightarrow> \<bar>b\<bar> \<le> 2 ^ 53 \<Longrightarrow> \<bar>a - b\<bar> \<le> 2 ^ 53 \<Longrightarrow> js_sub a b = a - b"
  using js_add_exact [of a "- b"] by (simp add: js_sub_def)

lemma is_double_small: "\<bar>x\<bar> \<le> 2 ^ 53 \<Longrightarrow> is_double x"
  using js_infinity_large by (simp add: is_double_def round_double_exact)

lemma js_add_ge:
  assumes "0 \<le> a" and "round_double a = a" and "0 \<le> b"
  shows "a \<le> js_add a b"
proof (cases "infinite_number a")
  case True
  then show ?thesis by (simp add: js_add_def)
next
  case False
  show ?thesis
  proof (cases "infinite_number b")
    case True
    with assms(3) have "js_infinity \<le> b"
      by (simp add: infinite_number_iff)
    moreover from round_double_le_infinity [OF assms(1)] assms(2) have "a \<le> js_infinity"
      by simp
    ultimately show ?thesis
      using False True by (simp add: js_add_def)
  next
    case b: False
    from assms(1,3) have "round_double a \<le> round_double (a + b)"
      by (intro round_double_mono) simp_all
    with False b assms(2) show ?thesis
      by (simp add: js_add_def)
  qed
qed

lemma js_add_number:
  assumes "0 \<le> a" and "round_double a = a" and "0 \<le> b" and "b < js_infinity"
  shows "round_double (js_add a b) = js_add a b" and "0 \<le> js_add a b"
proof -
  from assms(3,4) have b: "\<not> infinite_number b"
    by (simp add: infinite_number_iff)
  from assms(1,3) have "0 \<le> a + b" by simp
  with b assms(1,2) show "round_double (js_add a b) = js_add a b" and "0 \<le> js_add a b"
    by (simp_all add: js_add_def round_double_idem round_double_nonneg)
qed

lemma js_sub_remaining:
  assumes "is_double rem" and "0 \<le> sl" and "sl \<le> rem"
  shows "is_double (js_sub rem sl)" and "0 \<le> js_sub rem sl"
    and "0 < js_sub rem sl \<longleftrightarrow> sl < rem"
proof -
  from assms have fin: "\<not> infinite_number rem" "\<not> infinite_number (- sl)"
    by (simp_all add: is_double_def infinite_number_iff)
  then have eq: "js_sub rem sl = round_double (rem - sl)"
    by (simp add: js_sub_def js_add_def)
  from assms(3) have d: "0 \<le> rem - sl" by simp
  from d show nn: "0 \<le> js_sub rem sl"
    unfolding eq by (rule round_double_nonneg)
  have "round_double (rem - sl) \<le> round_double rem"
    using d assms(2) by (intro round_double_mono) simp_all
  moreover from assms(1) have "round_double rem = rem" "rem < js_infinity"
    by (simp_all add: is_double_def abs_less_iff)
  ultimately have "js_sub rem sl < js_infinity"
    by (simp add: eq)
  with nn have "\<bar>js_sub rem sl\<bar> < js_infinity" by simp
  moreover from d have "round_double (js_sub rem sl) = js_sub rem sl"
    by (simp add: eq round_double_idem)
  ultimately show "is_double (js_sub rem sl)"
    by (simp add: is_double_def)
  from d show "0 < js_sub rem sl \<longleftrightarrow> sl < rem"
    by (simp add: eq round_double_pos_iff)
qed

section \<open>Empty process set\<close>

lemma js_sort_Nil: "js_sort cmp [] = []"
  by (simp add: js_sort_def)

lemma enqueueArrivals_Nil: "enqueueArrivals [] t queue i = (queue, i)"
  by (simp add: enqueueArrivals_eq)

lemma select_loop_Nil: "select_loop cmp [] 0 [] 0 [] = Inr []"
  by (simp add: select_loop.simps)

lemma rr_init_Nil:
  "rr_init [] = \<lparr>rr_remainingBurst = Map.empty, rr_queue = [], rr_time = 0, rr_i = 0, rr_segments = []\<rparr>"
  by (simp add: rr_init_def rr_enqueue_def enqueueArrivals_Nil)

lemma rr_loop_Nil: "rr_loop [] q (rr_init []) = Some (Inr [])"
  by (subst rr_loop.simps) (simp add: rr_init_Nil)

lemma toFixed2_zero: "toFixed2 0 = 0"
  by (simp add: toFixed2_def floor_eq_iff)

lemma js_div_zero: "js_div 0 b = 0"
  by (simp add: js_div_def)

text \<open>
  C6. On the empty process set each of the four policies returns the empty segment list: the
  two selection loops and round robin return it as a value (no fault, and round robin
  returns, for every quantum), and \<open>computeMetrics\<close> on the empty process set, with any
  segment list, returns 0 for both averages: the divisor is 1.
\<close>

theorem empty_process_set:
  "scheduleFCFS [] = []
   \<and> scheduleSJF [] = Inr []
   \<and> schedulePriority [] = Inr []
   \<and> scheduleRoundRobin [] q = Some (Inr [])
   \<and> computeMetrics [] segments = \<lparr>avgWaiting = Some 0, avgTurnaround = Some 0\<rparr>"
  by (simp add: scheduleFCFS_def scheduleSJF_def schedulePriority_def scheduleRoundRobin_def
      computeMetrics_def js_sort_Nil select_loop_Nil rr_loop_Nil js_div_zero toFixed2_zero)

section \<open>Ticks: every segment list has its ticks\<close>




section \<open>Properties of a schedule\<close>

text \<open>
  A process set is well formed when its ids are unique, no arrival is negative and every
  burst is at least 1.
\<close>

definition well_formed :: "process list \<Rightarrow> bool" where
  "well_formed processes \<longleftrightarrow>
     distinct (map proc_id processes) \<and> (\<forall>p\<in>set processes. 0 \<le> arrival p \<and> 1 \<le> burst p)"

text \<open>
  A segment list is a partition of time when the starts do not decrease, every segment ends
  where the next one starts and every segment ends after it starts.
\<close>

definition time_partition :: "segment list \<Rightarrow> bool" where
  "time_partition segments \<longleftrightarrow>
     (\<forall>i. Suc i < length segments \<longrightarrow>
        start (segments ! i) \<le> start (segments ! Suc i)
        \<and> seg_end (segments ! i) = start (segments ! Suc i))
     \<and> (\<forall>s\<in>set segments. start s < seg_end s)"

text \<open>The same, as a recursion along the list from a given time.\<close>

fun contiguous_from :: "int \<Rightarrow> segment list \<Rightarrow> bool" where
  "contiguous_from t [] = True"
| "contiguous_from t (s # segments) =
     (start s = t \<and> start s < seg_end s \<and> contiguous_from (seg_end s) segments)"

lemma contiguous_from_partition:
  "contiguous_from t segments \<Longrightarrow> time_partition segments"
proof (induction segments arbitrary: t)
  case Nil
  then show ?case by (simp add: time_partition_def)
next
  case (Cons s segments)
  then have tail: "time_partition segments" and s: "start s < seg_end s"
    and c: "contiguous_from (seg_end s) segments"
    by auto
  have "start ((s # segments) ! i) \<le> start ((s # segments) ! Suc i)
      \<and> seg_end ((s # segments) ! i) = start ((s # segments) ! Suc i)"
    if "Suc i < length (s # segments)" for i
  proof (cases i)
    case 0
    with that obtain s' rest where "segments = s' # rest"
      by (cases segments) auto
    with c s 0 show ?thesis by simp
  next
    case (Suc j)
    with that tail show ?thesis
      by (simp add: time_partition_def)
  qed
  with tail s show ?case
    by (simp add: time_partition_def)
qed

lemma contiguous_from_hd:
  "contiguous_from t segments \<Longrightarrow> segments \<noteq> [] \<Longrightarrow> start (hd segments) = t"
  by (cases segments) auto

text \<open>
  The time given to an id by a segment list, and the number of segments that bear it.
\<close>

definition served :: "segment list \<Rightarrow> string \<Rightarrow> int" where
  "served segments x = sum_list (map (\<lambda>s. seg_end s - start s) (filter (\<lambda>s. pid s = x) segments))"

definition occurrences :: "segment list \<Rightarrow> string \<Rightarrow> nat" where
  "occurrences segments x = length (filter (\<lambda>s. pid s = x) segments)"

text \<open>
  Both are sums of a weight over the segments of an id; the lemmas below are proved once for
  any weight \<open>w\<close> of segments that gives the run of a process \<open>p\<close> the weight \<open>v p\<close>.
\<close>

definition seg_total :: "(segment \<Rightarrow> int) \<Rightarrow> segment list \<Rightarrow> string \<Rightarrow> int" where
  "seg_total w segments x = sum_list (map w (filter (\<lambda>s. pid s = x) segments))"

definition proc_total :: "(process \<Rightarrow> int) \<Rightarrow> process list \<Rightarrow> string \<Rightarrow> int" where
  "proc_total v processes x = sum_list (map v (filter (\<lambda>p. proc_id p = x) processes))"

lemma served_seg_total: "served segments x = seg_total (\<lambda>s. seg_end s - start s) segments x"
  by (simp add: served_def seg_total_def)

lemma occurrences_seg_total: "int (occurrences segments x) = seg_total (\<lambda>s. 1) segments x"
  by (simp add: occurrences_def seg_total_def sum_list_triv)

lemma seg_total_Nil: "seg_total w [] x = 0"
  by (simp add: seg_total_def)

lemma seg_total_Cons:
  "seg_total w (s # segments) x = (if pid s = x then w s else 0) + seg_total w segments x"
  by (simp add: seg_total_def)

lemma seg_total_append:
  "seg_total w (xs @ ys) x = seg_total w xs x + seg_total w ys x"
  by (simp add: seg_total_def)

lemma proc_total_Nil: "proc_total v [] x = 0"
  by (simp add: proc_total_def)

lemma proc_total_Cons:
  "proc_total v (p # ps) x = (if proc_id p = x then v p else 0) + proc_total v ps x"
  by (simp add: proc_total_def)

lemma proc_total_append:
  "proc_total v (ps @ qs) x = proc_total v ps x + proc_total v qs x"
  by (simp add: proc_total_def)

lemma proc_total_mset:
  "mset ps = mset qs \<Longrightarrow> proc_total v ps x = proc_total v qs x"
proof -
  assume "mset ps = mset qs"
  then have "mset (map v (filter (\<lambda>p. proc_id p = x) ps)) = mset (map v (filter (\<lambda>p. proc_id p = x) qs))"
    by (metis mset_filter mset_map)
  then have "sum_mset (mset (map v (filter (\<lambda>p. proc_id p = x) ps)))
      = sum_mset (mset (map v (filter (\<lambda>p. proc_id p = x) qs)))"
    by simp
  then show ?thesis
    by (simp only: proc_total_def sum_mset_sum_list)
qed

lemma proc_total_js_sort: "proc_total v (js_sort cmp ps) x = proc_total v ps x"
  by (rule proc_total_mset) (rule mset_js_sort)

lemma filter_distinct_key:
  "distinct (map f xs) \<Longrightarrow> x \<in> set xs \<Longrightarrow> filter (\<lambda>y. f y = f x) xs = [x]"
proof (induction xs)
  case Nil
  then show ?case by simp
next
  case (Cons y ys)
  show ?case
  proof (cases "y = x")
    case True
    from Cons.prems have "f y \<notin> f ` set ys" by simp
    then have "\<forall>z\<in>set ys. f z \<noteq> f y" by (metis imageI)
    then have "filter (\<lambda>z. f z = f y) ys = []"
      by (simp add: filter_empty_conv)
    with True show ?thesis by simp
  next
    case False
    with Cons.prems have "x \<in> set ys" "f y \<noteq> f x" by auto
    with Cons show ?thesis by simp
  qed
qed

lemma proc_total_distinct:
  "distinct (map proc_id ps) \<Longrightarrow> p \<in> set ps \<Longrightarrow> proc_total v ps (proc_id p) = v p"
  by (simp add: proc_total_def filter_distinct_key)

lemma pid_idle_segment: "pid (idle_segment s e) = IDLE"
  by (simp add: idle_segment_def)

lemma pid_run_segment: "pid (run_segment p s e) = proc_id p"
  by (simp add: run_segment_def)

section \<open>First come, first served: the schedule\<close>

declare fcfs_loop.simps(2) [simp del]

lemma fcfs_loop_append:
  "fcfs_loop procs time segments = segments @ fcfs_loop procs time []"
proof (induction procs arbitrary: time segments)
  case Nil
  show ?case by simp
next
  case (Cons p procs)
  show ?case
  proof (cases "time < arrival p")
    case True
    then show ?thesis
      using Cons [of "js_add (arrival p) (burst p)"
          "segments @ [idle_segment time (arrival p)] @ [run_segment p (arrival p) (js_add (arrival p) (burst p))]"]
        Cons [of "js_add (arrival p) (burst p)"
          "[idle_segment time (arrival p)] @ [run_segment p (arrival p) (js_add (arrival p) (burst p))]"]
      by (simp add: fcfs_loop.simps(2))
  next
    case False
    then show ?thesis
      using Cons [of "js_add time (burst p)" "segments @ [run_segment p time (js_add time (burst p))]"]
        Cons [of "js_add time (burst p)" "[run_segment p time (js_add time (burst p))]"]
      by (simp add: fcfs_loop.simps(2))
  qed
qed

lemma fcfs_loop_Cons:
  "fcfs_loop (p # procs) time [] =
     (if time < arrival p
      then idle_segment time (arrival p) # run_segment p (arrival p) (js_add (arrival p) (burst p))
             # fcfs_loop procs (js_add (arrival p) (burst p)) []
      else run_segment p time (js_add time (burst p)) # fcfs_loop procs (js_add time (burst p)) [])"
  using fcfs_loop_append [of procs "js_add (arrival p) (burst p)"
      "[idle_segment time (arrival p), run_segment p (arrival p) (js_add (arrival p) (burst p))]"]
    fcfs_loop_append [of procs "js_add time (burst p)" "[run_segment p time (js_add time (burst p))]"]
  by (simp add: fcfs_loop.simps(2))


lemma fcfs_nonempty: "procs \<noteq> [] \<Longrightarrow> fcfs_loop procs time [] \<noteq> []"
  by (cases procs) (simp_all add: fcfs_loop_Cons)

lemma fcfs_totals:
  assumes w: "\<And>p t e. w (run_segment p t e) = v p" and x: "x \<noteq> IDLE"
  shows "seg_total w (fcfs_loop procs time []) x = proc_total v procs x"
proof (induction procs arbitrary: time)
  case Nil
  show ?case by (simp add: seg_total_Nil proc_total_Nil)
next
  case (Cons p procs)
  from x show ?case
    by (simp add: fcfs_loop_Cons seg_total_Cons proc_total_Cons Cons pid_idle_segment
        pid_run_segment w)
qed

section \<open>The selection loop: the schedule\<close>

text \<open>The three ways a round of the loop goes: it is over, it idles, or it runs a process.\<close>

lemma select_loop_done:
  "\<not> (i < length remaining \<or> ready \<noteq> []) \<Longrightarrow>
     select_loop cmp remaining i ready time segments = Inr segments"
  by (subst select_loop.simps) simp

lemma takeWhile_drop_Nil:
  "i < length xs \<Longrightarrow> \<not> P (xs ! i) \<Longrightarrow> takeWhile P (drop i xs) = []"
  by (simp add: Cons_nth_drop_Suc [symmetric])

lemma select_loop_idle:
  "i < length remaining \<Longrightarrow> time < arrival (remaining ! i) \<Longrightarrow>
     select_loop cmp remaining i [] time segments =
       select_loop cmp remaining i [] (arrival (remaining ! i))
         (segments @ [idle_segment time (arrival (remaining ! i))])"
  by (subst select_loop.simps) (simp add: enqueueArrivals_eq takeWhile_drop_Nil Let_def)

lemma select_loop_run:
  assumes "js_sort cmp (ready @ takeWhile (\<lambda>p. arrival p \<le> time) (drop i remaining)) = p # rest"
  shows "select_loop cmp remaining i ready time segments =
       select_loop cmp remaining (i + length (takeWhile (\<lambda>p. arrival p \<le> time) (drop i remaining)))
         rest (js_add time (burst p)) (segments @ [run_segment p time (js_add time (burst p))])"
proof -
  let ?tw = "takeWhile (\<lambda>p. arrival p \<le> time) (drop i remaining)"
  from assms have ne: "ready @ ?tw \<noteq> []"
    by (auto simp: js_sort_Nil)
  have "i < length remaining \<or> ready \<noteq> []"
  proof (rule ccontr)
    assume "\<not> (i < length remaining \<or> ready \<noteq> [])"
    then have "ready @ ?tw = []" by simp
    with ne show False by simp
  qed
  with assms ne show ?thesis
    by (subst select_loop.simps) (auto simp: enqueueArrivals_eq Let_def)
qed

lemma select_round_cases:
  assumes "i < length remaining \<or> ready \<noteq> []"
  obtains (idle) "ready = []" "i < length remaining" "time < arrival (remaining ! i)"
  | (run) p rest where
      "js_sort cmp (ready @ takeWhile (\<lambda>p. arrival p \<le> time) (drop i remaining)) = p # rest"
proof (cases "ready @ takeWhile (\<lambda>p. arrival p \<le> time) (drop i remaining) = []")
  case True
  then have r: "ready = []" and tw: "takeWhile (\<lambda>p. arrival p \<le> time) (drop i remaining) = []"
    by simp_all
  with assms have lt: "i < length remaining" by simp
  then have "drop i remaining = remaining ! i # drop (Suc i) remaining"
    by (simp add: Cons_nth_drop_Suc)
  with tw have "time < arrival (remaining ! i)"
    by (auto split: if_splits)
  with r lt show ?thesis by (rule idle)
next
  case False
  then obtain p rest
    where "js_sort cmp (ready @ takeWhile (\<lambda>p. arrival p \<le> time) (drop i remaining)) = p # rest"
    by (cases "js_sort cmp (ready @ takeWhile (\<lambda>p. arrival p \<le> time) (drop i remaining))")
       (simp_all add: js_sort_Nil_iff)
  then show ?thesis by (rule run)
qed

text \<open>The induction along the rounds of the loop.\<close>

lemma select_rounds_induct [case_names over idle run]:
  assumes over: "\<And>i ready time segments.
      \<not> (i < length remaining \<or> ready \<noteq> []) \<Longrightarrow> P i ready time segments"
    and idle: "\<And>i time segments.
      i < length remaining \<Longrightarrow> time < arrival (remaining ! i) \<Longrightarrow>
      P i [] (arrival (remaining ! i)) (segments @ [idle_segment time (arrival (remaining ! i))]) \<Longrightarrow>
      P i [] time segments"
    and run: "\<And>i ready time segments p rest.
      js_sort cmp (ready @ takeWhile (\<lambda>p. arrival p \<le> time) (drop i remaining)) = p # rest \<Longrightarrow>
      P (i + length (takeWhile (\<lambda>p. arrival p \<le> time) (drop i remaining))) rest (js_add time (burst p))
        (segments @ [run_segment p time (js_add time (burst p))]) \<Longrightarrow>
      P i ready time segments"
  shows "P i ready time segments"
proof -
  have "c = cmp \<longrightarrow> r = remaining \<longrightarrow> P i ready time segments" for c r
  proof (induction c r i ready time segments rule: select_loop.induct)
    case (1 c r i ready time segments)
    show ?case
    proof (intro impI)
      assume c: "c = cmp" and r: "r = remaining"
      show "P i ready time segments"
      proof (cases "i < length remaining \<or> ready \<noteq> []")
        case False
        then show ?thesis by (rule over)
      next
        case True
        let ?tw = "takeWhile (\<lambda>p. arrival p \<le> time) (drop i remaining)"
        have enq: "(ready @ ?tw, i + length ?tw) = enqueueArrivals r time ready i"
          by (simp add: enqueueArrivals_eq r)
        from True have guard: "i < length r \<or> ready \<noteq> []"
          by (simp add: r)
        from True show ?thesis
        proof (cases rule: select_round_cases [where cmp = cmp and time = time])
          case idle
          then have tw: "?tw = []"
            by (simp add: takeWhile_drop_Nil)
          have "P i [] (arrival (remaining ! i)) (segments @ [idle_segment time (arrival (remaining ! i))])"
            using "1.IH"(1) [OF guard, of "ready @ ?tw" "i + length ?tw"] enq idle tw c r
            by simp
          with idle show ?thesis
            by (simp add: assms(2))
        next
          case (run p rest)
          then have ne: "ready @ ?tw \<noteq> []"
            by (auto simp: js_sort_Nil)
          from run have "js_sort c (ready @ ?tw) = p # rest"
            by (simp add: c)
          from "1.IH"(2) [OF guard enq ne this] c r
          have "P (i + length ?tw) rest (js_add time (burst p)) (segments @ [run_segment p time (js_add time (burst p))])"
            by simp
          with run show ?thesis
            by (rule assms(3))
        qed
      qed
    qed
  qed
  then show ?thesis by simp
qed

text \<open>The time at which a segment list that starts at \<open>t\<close> ends.\<close>

definition end_of :: "int \<Rightarrow> segment list \<Rightarrow> int" where
  "end_of t segments = (if segments = [] then t else seg_end (last segments))"

lemma end_of_Nil: "end_of t [] = t"
  by (simp add: end_of_def)

lemma end_of_Cons: "end_of t (s # segments) = end_of (seg_end s) segments"
  by (simp add: end_of_def)

lemma end_of_snoc: "end_of t (segments @ [s]) = seg_end s"
  by (simp add: end_of_def)

lemma contiguous_from_snoc:
  "contiguous_from t (segments @ [s]) \<longleftrightarrow>
     contiguous_from t segments \<and> start s = end_of t segments \<and> start s < seg_end s"
  by (induction segments arbitrary: t) (auto simp: end_of_Nil end_of_Cons)

lemma set_sorted_ready:
  assumes "js_sort cmp (ready @ takeWhile P (drop i remaining)) = p # rest"
    and "set ready \<subseteq> set remaining"
  shows "p \<in> set remaining" and "set rest \<subseteq> set remaining"
proof -
  have "set (p # rest) = set (ready @ takeWhile P (drop i remaining))"
    using assms(1) set_js_sort [of cmp "ready @ takeWhile P (drop i remaining)"] by simp
  also have "\<dots> \<subseteq> set remaining"
    using assms(2) by (auto dest: set_takeWhileD in_set_dropD)
  finally show "p \<in> set remaining" and "set rest \<subseteq> set remaining"
    by simp_all
qed

lemma select_loop_returns:
  "\<exists>res. select_loop cmp remaining i ready time segments = Inr res"
proof (induction i ready time segments rule: select_rounds_induct [where cmp = cmp and remaining = remaining])
  case (over i ready time segments)
  then show ?case by (simp add: select_loop_done)
next
  case (idle i time segments)
  then show ?case by (simp add: select_loop_idle)
next
  case (run i ready time segments p rest)
  then show ?case by (simp add: select_loop_run)
qed

lemma select_loop_length:
  "select_loop cmp remaining i ready time segments = Inr res \<Longrightarrow>
     length segments \<le> length res
     \<and> (i < length remaining \<or> ready \<noteq> [] \<longrightarrow> length segments < length res)"
proof (induction i ready time segments rule: select_rounds_induct [where cmp = cmp and remaining = remaining])
  case (over i ready time segments)
  then show ?case by (simp add: select_loop_done)
next
  case (idle i time segments)
  then show ?case by (simp add: select_loop_idle)
next
  case (run i ready time segments p rest)
  then show ?case by (simp add: select_loop_run)
qed


lemma drop_takeWhile_dropWhile:
  "drop (i + length (takeWhile P (drop i xs))) xs = dropWhile P (drop i xs)"
proof -
  have "drop (i + length (takeWhile P (drop i xs))) xs
      = drop (length (takeWhile P (drop i xs))) (drop i xs)"
    by (simp add: add.commute)
  then show ?thesis
    by (simp add: dropWhile_eq_drop)
qed

lemma proc_total_pending:
  "proc_total v (drop i remaining) x =
     proc_total v (takeWhile P (drop i remaining)) x
     + proc_total v (drop (i + length (takeWhile P (drop i remaining))) remaining) x"
proof -
  have "proc_total v (drop i remaining) x
      = proc_total v (takeWhile P (drop i remaining) @ dropWhile P (drop i remaining)) x"
    by simp
  then show ?thesis
    by (simp only: proc_total_append drop_takeWhile_dropWhile)
qed

lemma select_loop_totals:
  assumes w: "\<And>p t e. w (run_segment p t e) = v p" and x: "x \<noteq> IDLE"
  shows "select_loop cmp remaining i ready time segments = Inr res \<Longrightarrow>
     seg_total w res x =
       seg_total w segments x + proc_total v ready x + proc_total v (drop i remaining) x"
proof (induction i ready time segments rule: select_rounds_induct [where cmp = cmp and remaining = remaining])
  case (over i ready time segments)
  then show ?case by (simp add: select_loop_done proc_total_Nil)
next
  case (idle i time segments)
  from idle.prems idle.hyps have "select_loop cmp remaining i [] (arrival (remaining ! i))
      (segments @ [idle_segment time (arrival (remaining ! i))]) = Inr res"
    by (simp add: select_loop_idle)
  from idle.IH [OF this] x show ?case
    by (simp add: seg_total_append seg_total_Cons seg_total_Nil pid_idle_segment)
next
  case (run i ready time segments p rest)
  let ?tw = "takeWhile (\<lambda>p. arrival p \<le> time) (drop i remaining)"
  from run.prems run.hyps have "select_loop cmp remaining (i + length ?tw) rest (js_add time (burst p))
      (segments @ [run_segment p time (js_add time (burst p))]) = Inr res"
    by (simp add: select_loop_run)
  from run.IH [OF this]
  have res: "seg_total w res x =
      seg_total w segments x + (if proc_id p = x then v p else 0)
      + proc_total v rest x + proc_total v (drop (i + length ?tw) remaining) x"
    by (simp add: seg_total_append seg_total_Cons seg_total_Nil pid_run_segment w)
  have "mset (p # rest) = mset (ready @ ?tw)"
    using run.hyps mset_js_sort [of cmp "ready @ ?tw"] by simp
  then have "proc_total v (p # rest) x = proc_total v (ready @ ?tw) x"
    by (rule proc_total_mset)
  then have "(if proc_id p = x then v p else 0) + proc_total v rest x
      = proc_total v ready x + proc_total v ?tw x"
    by (simp add: proc_total_Cons proc_total_append)
  with res proc_total_pending [of v i remaining x "\<lambda>p. arrival p \<le> time"] show ?case
    by simp
qed

section \<open>Non-preemption\<close>

lemma fcfs_schedule_totals:
  assumes "\<And>p t e. w (run_segment p t e) = v p" and "x \<noteq> IDLE"
  shows "seg_total w (scheduleFCFS processes) x = proc_total v processes x"
  using assms by (simp add: scheduleFCFS_def fcfs_totals [where v = v] proc_total_js_sort)

lemma select_schedule_totals:
  assumes "\<And>p t e. w (run_segment p t e) = v p" and "x \<noteq> IDLE"
    and "select_loop cmp (js_sort (by_key arrival) processes) 0 [] 0 [] = Inr res"
  shows "seg_total w res x = proc_total v processes x"
  using select_loop_totals [of w v x cmp "js_sort (by_key arrival) processes" 0 "[]" 0 "[]" res] assms
  by (simp add: seg_total_Nil proc_total_Nil proc_total_js_sort)

lemma occurrences_one:
  assumes "seg_total (\<lambda>s. 1) segments x = proc_total (\<lambda>p. 1) processes x"
    and "distinct (map proc_id processes)" and "p \<in> set processes" and "x = proc_id p"
  shows "occurrences segments x = 1"
proof -
  from assms have "int (occurrences segments x) = 1"
    by (simp add: occurrences_seg_total proc_total_distinct)
  then show ?thesis by simp
qed


lemma not_idle_id:
  "IDLE \<notin> set (map proc_id processes) \<Longrightarrow> p \<in> set processes \<Longrightarrow> proc_id p \<noteq> IDLE"
  by (metis imageI list.set_map)

text \<open>
  C4, as amended. For a well-formed process set in which no process has the id of the idle
  segments, \<open>IDLE\<close>, the id of each process is borne by exactly one segment of the schedule
  of \<open>scheduleFCFS\<close>, of \<open>scheduleSJF\<close> and of \<open>schedulePriority\<close>.
\<close>

theorem non_preemption:
  assumes "well_formed processes" and "IDLE \<notin> set (map proc_id processes)"
    and "p \<in> set processes"
  shows "occurrences (scheduleFCFS processes) (proc_id p) = 1
     \<and> (\<exists>segments. scheduleSJF processes = Inr segments \<and> occurrences segments (proc_id p) = 1)
     \<and> (\<exists>segments. schedulePriority processes = Inr segments
           \<and> occurrences segments (proc_id p) = 1)"
proof (intro conjI)
  from assms have d: "distinct (map proc_id processes)" and x: "proc_id p \<noteq> IDLE"
    by (simp_all add: well_formed_def not_idle_id)
  have "seg_total (\<lambda>s. 1) (scheduleFCFS processes) (proc_id p)
      = proc_total (\<lambda>p. 1) processes (proc_id p)"
    using x by (intro fcfs_schedule_totals) simp_all
  then show "occurrences (scheduleFCFS processes) (proc_id p) = 1"
    using d assms(3) by (rule occurrences_one) simp
  have one: "occurrences segments (proc_id p) = 1"
    if "select_loop cmp (js_sort (by_key arrival) processes) 0 [] 0 [] = Inr segments"
    for cmp segments
  proof -
    have "seg_total (\<lambda>s. 1) segments (proc_id p) = proc_total (\<lambda>p. 1) processes (proc_id p)"
      using x that by (intro select_schedule_totals [where cmp = cmp]) simp_all
    then show ?thesis
      using d assms(3) by (rule occurrences_one) simp
  qed
  obtain sjf where sjf: "scheduleSJF processes = Inr sjf"
    using select_loop_returns [of "by_key burst" "js_sort (by_key arrival) processes" 0 "[]" 0 "[]"]
    by (auto simp: scheduleSJF_def)
  then show "\<exists>segments. scheduleSJF processes = Inr segments \<and> occurrences segments (proc_id p) = 1"
    using one [of "by_key burst" sjf] by (simp add: scheduleSJF_def)
  obtain pri where pri: "schedulePriority processes = Inr pri"
    using select_loop_returns [of priority_cmp "js_sort (by_key arrival) processes" 0 "[]" 0 "[]"]
    by (auto simp: schedulePriority_def)
  then show "\<exists>segments. schedulePriority processes = Inr segments
      \<and> occurrences segments (proc_id p) = 1"
    using one [of priority_cmp pri] by (simp add: schedulePriority_def)
qed

text \<open>The demonstration set of the application, and a process set that has to idle first.\<close>

definition demo_processes :: "process list" where
  "demo_processes =
     [\<lparr>proc_id = ''P1'', arrival = 0, burst = 4, priority = 2\<rparr>,
      \<lparr>proc_id = ''P2'', arrival = 1, burst = 3, priority = 1\<rparr>,
      \<lparr>proc_id = ''P3'', arrival = 2, burst = 6, priority = 3\<rparr>]"

theorem non_preemption_witness:
  "well_formed demo_processes
   \<and> IDLE \<notin> set (map proc_id demo_processes)
   \<and> \<lparr>proc_id = ''P2'', arrival = 1, burst = 3, priority = 1\<rparr> \<in> set demo_processes
   \<and> occurrences (scheduleFCFS demo_processes) ''P2'' = 1
   \<and> (\<exists>segments. scheduleSJF demo_processes = Inr segments \<and> occurrences segments ''P2'' = 1)
   \<and> (\<exists>segments. schedulePriority demo_processes = Inr segments \<and> occurrences segments ''P2'' = 1)"
proof -
  let ?p = "\<lparr>proc_id = ''P2'', arrival = 1, burst = 3, priority = 1\<rparr>"
  have wf: "well_formed demo_processes"
    by (simp add: well_formed_def demo_processes_def)
  have idle: "IDLE \<notin> set (map proc_id demo_processes)"
    by (simp add: demo_processes_def IDLE_def)
  have p: "?p \<in> set demo_processes"
    by (simp add: demo_processes_def)
  from non_preemption [OF wf idle p] wf idle p show ?thesis
    by simp
qed

text \<open>
  The claim as it was stated does not keep the id \<open>IDLE\<close> away from the processes. A process
  with that id that arrives at 1 shares it with the idle segment before it.
\<close>

theorem non_preemption_idle_id_counterexample:
  "well_formed [\<lparr>proc_id = ''IDLE'', arrival = 1, burst = 1, priority = 1\<rparr>]
   \<and> scheduleFCFS [\<lparr>proc_id = ''IDLE'', arrival = 1, burst = 1, priority = 1\<rparr>]
       = [\<lparr>pid = ''IDLE'', start = 0, seg_end = 1\<rparr>, \<lparr>pid = ''IDLE'', start = 1, seg_end = 2\<rparr>]
   \<and> occurrences (scheduleFCFS [\<lparr>proc_id = ''IDLE'', arrival = 1, burst = 1, priority = 1\<rparr>])
        ''IDLE'' = 2"
  by code_simp

section \<open>The tie-break of shortest job first\<close>

text \<open>
  The specification's words for the selection: the first element of the ready list, in the
  order of the list, among those with minimal burst.
\<close>

definition first_shortest :: "process list \<Rightarrow> process option" where
  "first_shortest ready = find (\<lambda>p. \<forall>r\<in>set ready. burst p \<le> burst r) ready"

lemma by_key_le_0: "by_key k a b \<le> 0 \<longleftrightarrow> k a \<le> k b"
  by (simp add: by_key_def)

lemma js_sort_Cons: "js_sort cmp (x # xs) = insert_by cmp x (js_sort cmp xs)"
  by (simp add: js_sort_def)

lemma filter_insert_by_key:
  "filter (\<lambda>y. k y = c) (insert_by (by_key k) x ys) =
     (if k x = c then x # filter (\<lambda>y. k y = c) ys else filter (\<lambda>y. k y = c) ys)"
  by (induction ys) (auto simp: by_key_le_0)

lemma js_sort_stable:
  "filter (\<lambda>y. k y = c) (js_sort (by_key k) xs) = filter (\<lambda>y. k y = c) xs"
  by (induction xs) (simp_all add: js_sort_Nil js_sort_Cons filter_insert_by_key)

lemma set_insert_by: "set (insert_by cmp x xs) = insert x (set xs)"
  by (induction xs) auto

lemma sorted_insert_by_key:
  "sorted (map k ys) \<Longrightarrow> sorted (map k (insert_by (by_key k) x ys))"
  by (induction ys) (auto simp: by_key_le_0 set_insert_by)

lemma sorted_js_sort: "sorted (map k (js_sort (by_key k) xs))"
  by (induction xs) (simp_all add: js_sort_Nil js_sort_Cons sorted_insert_by_key)

lemma find_conj_Some:
  "find P xs = Some y \<Longrightarrow> Q y \<Longrightarrow> find (\<lambda>x. Q x \<and> P x) xs = Some y"
  by (induction xs) (auto split: if_splits)

lemma find_Some_holds: "find P xs = Some y \<Longrightarrow> P y \<and> y \<in> set xs"
  by (induction xs) (auto split: if_splits)

lemma head_of_sort_is_first_shortest:
  "js_sort (by_key burst) ready = p # rest \<Longrightarrow> first_shortest ready = Some p"
proof (induction ready arbitrary: p rest)
  case Nil
  then show ?case by (simp add: js_sort_Nil)
next
  case (Cons x xs)
  show ?case
  proof (cases "js_sort (by_key burst) xs")
    case Nil
    then have "xs = []" by (simp add: js_sort_Nil_iff)
    with Cons.prems show ?thesis
      by (simp add: js_sort_Cons js_sort_Nil first_shortest_def)
  next
    case (Cons p' rest')
    then have fs: "first_shortest xs = Some p'"
      by (rule Cons.IH)
    then have p': "p' \<in> set xs" "\<forall>r\<in>set xs. burst p' \<le> burst r"
      using find_Some_holds [of "\<lambda>p. \<forall>r\<in>set xs. burst p \<le> burst r" xs p']
      by (simp_all add: first_shortest_def)
    show ?thesis
    proof (cases "burst x \<le> burst p'")
      case True
      with Cons.prems Cons have "p = x"
        by (simp add: js_sort_Cons by_key_le_0)
      moreover from True p' have "\<forall>r\<in>set (x # xs). burst x \<le> burst r"
        by auto
      ultimately show ?thesis
        by (simp add: first_shortest_def)
    next
      case False
      with Cons.prems Cons have p: "p = p'"
        by (simp add: js_sort_Cons by_key_le_0)
      from False have "find (\<lambda>y. burst y \<le> burst x \<and> (\<forall>r\<in>set xs. burst y \<le> burst r)) xs = Some p'"
        using fs by (intro find_conj_Some) (simp_all add: first_shortest_def)
      with False p' p show ?thesis
        by (auto simp: first_shortest_def)
    qed
  qed
qed

lemma take_takeWhile_drop:
  "take (i + length (takeWhile P (drop i xs))) xs = take i xs @ takeWhile P (drop i xs)"
proof -
  have "take (length (takeWhile P (drop i xs))) (drop i xs) = takeWhile P (drop i xs)"
    by (rule takeWhile_eq_take [symmetric])
  then show ?thesis
    by (simp add: take_add)
qed


lemma find_Some_hd_filter: "find P xs = Some y \<Longrightarrow> hd (filter P xs) = y"
  by (induction xs) (auto split: if_splits)

lemma first_shortest_first_tie:
  assumes "first_shortest ready = Some p"
  shows "hd (filter (\<lambda>x. burst x = burst p) ready) = p"
proof -
  let ?P = "\<lambda>p. \<forall>r\<in>set ready. burst p \<le> burst r"
  from assms have p: "?P p" "p \<in> set ready"
    using find_Some_holds [of ?P ready p] by (simp_all add: first_shortest_def)
  have "filter (\<lambda>x. burst x = burst p) ready = filter ?P ready"
  proof (rule filter_cong [OF refl])
    fix x
    assume x: "x \<in> set ready"
    show "(burst x = burst p) = ?P x"
    proof
      assume "burst x = burst p"
      with p(1) show "?P x" by simp
    next
      assume "?P x"
      with p x have "burst x \<le> burst p" "burst p \<le> burst x" by simp_all
      then show "burst x = burst p" by simp
    qed
  qed
  with assms show ?thesis
    by (simp add: first_shortest_def find_Some_hd_filter)
qed

text \<open>
  The states of the loop of \<^verbatim>\<open>scheduleSJF\<close> and \<^verbatim>\<open>schedulePriority\<close> at the head of a
  round, \<open>(i, ready, time, segments)\<close>: the first state, and the state after a round that
  idles or that runs a process, as in \<open>select_loop\<close>.
\<close>

inductive select_reaches ::
  "(process \<Rightarrow> process \<Rightarrow> int) \<Rightarrow> process list \<Rightarrow> nat \<Rightarrow> process list \<Rightarrow> int \<Rightarrow> segment list \<Rightarrow> bool"
  for cmp :: "process \<Rightarrow> process \<Rightarrow> int" and remaining :: "process list" where
  first: "select_reaches cmp remaining 0 [] 0 []"
| idles: "select_reaches cmp remaining i ready time segments \<Longrightarrow>
          i < length remaining \<or> ready \<noteq> [] \<Longrightarrow>
          enqueueArrivals remaining time ready i = ([], i1) \<Longrightarrow> i1 < length remaining \<Longrightarrow>
          select_reaches cmp remaining i1 [] (arrival (remaining ! i1))
            (segments @ [idle_segment time (arrival (remaining ! i1))])"
| runs: "select_reaches cmp remaining i ready time segments \<Longrightarrow>
         i < length remaining \<or> ready \<noteq> [] \<Longrightarrow>
         enqueueArrivals remaining time ready i = (ready1, i1) \<Longrightarrow>
         js_sort cmp ready1 = p # rest \<Longrightarrow>
         select_reaches cmp remaining i1 rest (js_add time (burst p))
           (segments @ [run_segment p time (js_add time (burst p))])"

text \<open>From each of these states the loop returns what it returns from the first.\<close>

lemma select_reaches_result:
  "select_reaches cmp remaining i ready time segments \<Longrightarrow>
     select_loop cmp remaining i ready time segments = select_loop cmp remaining 0 [] 0 []"
proof (induction rule: select_reaches.induct)
  case first
  show ?case by simp
next
  case (idles i ready time segments i1)
  from idles.hyps(2-4) have "select_loop cmp remaining i ready time segments =
      select_loop cmp remaining i1 [] (arrival (remaining ! i1))
        (segments @ [idle_segment time (arrival (remaining ! i1))])"
    by (subst select_loop.simps) (simp add: Let_def)
  with idles.IH show ?case by simp
next
  case (runs i ready time segments ready1 i1 p rest)
  from runs.hyps(4) have "ready1 \<noteq> []"
    by (auto simp: js_sort_Nil)
  with runs.hyps(2-4) have "select_loop cmp remaining i ready time segments =
      select_loop cmp remaining i1 rest (js_add time (burst p))
        (segments @ [run_segment p time (js_add time (burst p))])"
    by (subst select_loop.simps) simp
  with runs.IH show ?case by simp
qed

text \<open>The segments of a state of the loop are the beginning of what the loop returns.\<close>

lemma select_loop_prefix:
  "select_loop cmp remaining i ready time segments = Inr res \<Longrightarrow> prefix segments res"
proof (induction i ready time segments rule: select_rounds_induct [where cmp = cmp and remaining = remaining])
  case (over i ready time segments)
  then show ?case by (simp add: select_loop_done)
next
  case (idle i time segments)
  then have "prefix (segments @ [idle_segment time (arrival (remaining ! i))]) res"
    by (simp add: select_loop_idle)
  then show ?case
    by (rule append_prefixD)
next
  case (run i ready time segments p rest)
  then have "prefix (segments @ [run_segment p time (js_add time (burst p))]) res"
    by (simp add: select_loop_run)
  then show ?case
    by (rule append_prefixD)
qed

text \<open>
  In every state of the loop of \<^verbatim>\<open>scheduleSJF\<close> the ready processes of one burst stand
  in the order in which they were appended, which is their order in the list sorted by
  arrival.
\<close>

lemma subseq_filter_tl:
  "filter P (y # ys) = filter P xs \<Longrightarrow> subseq (filter P ys) (filter P xs)"
  by (metis filter.simps(2) subseq_Cons' subseq_order.order_refl subseq_Cons2_iff subseq_order.eq_iff)

lemma select_reaches_order:
  "select_reaches (by_key burst) remaining i ready time segments \<Longrightarrow>
     subseq (filter (\<lambda>x. burst x = b) ready) (take i remaining)"
proof (induction rule: select_reaches.induct)
  case first
  show ?case by simp
next
  case (idles i ready time segments i1)
  show ?case by simp
next
  case (runs i ready time segments ready1 i1 p rest)
  let ?tw = "takeWhile (\<lambda>p. arrival p \<le> time) (drop i remaining)"
  from runs.hyps(3) have r1: "ready1 = ready @ ?tw" and i1: "i1 = i + length ?tw"
    by (simp_all add: enqueueArrivals_eq)
  have "subseq (filter (\<lambda>x. burst x = b) ?tw) ?tw"
    by simp
  with runs.IH have "subseq (filter (\<lambda>x. burst x = b) ready @ filter (\<lambda>x. burst x = b) ?tw)
      (take i remaining @ ?tw)"
    by (rule list_emb_append_mono)
  then have ready1: "subseq (filter (\<lambda>x. burst x = b) ready1) (take i1 remaining)"
    by (simp add: r1 i1 take_takeWhile_drop)
  have "filter (\<lambda>x. burst x = b) (p # rest) = filter (\<lambda>x. burst x = b) ready1"
    using js_sort_stable [of burst b ready1] runs.hyps(4) by simp
  then have "subseq (filter (\<lambda>x. burst x = b) rest) (filter (\<lambda>x. burst x = b) ready1)"
    by (rule subseq_filter_tl)
  from this ready1 show ?case
    by (rule subseq_order.order_trans)
qed

text \<open>
  C7. Take any state of the loop of \<open>scheduleSJF\<close> and the ready list \<open>ready1\<close> that the
  round has after it has moved the arrivals, when that list is not empty. The processes of
  equal burst stand in it in the order of the list sorted by arrival, in which they were
  appended; that list is sorted by arrival and keeps the processes of equal arrival in the
  order of the input. The process \<open>p\<close> that the round selects, the head of the list sorted
  by burst, is the first element of the ready list among those of minimal burst, that is
  the first of the processes of its burst: of several ready processes of equal burst, the
  one appended earliest. The round pushes the segment of \<open>p\<close>, the loop goes on with the
  rest of the sorted list, and what \<open>scheduleSJF\<close> returns begins with the segments up to
  that one.
\<close>

theorem sjf_tie_break:
  assumes "select_reaches (by_key burst) (js_sort (by_key arrival) processes) i ready time segments"
    and "enqueueArrivals (js_sort (by_key arrival) processes) time ready i = (ready1, i1)"
    and "ready1 \<noteq> []"
  shows "\<exists>p rest res.
     js_sort (by_key burst) ready1 = p # rest
     \<and> first_shortest ready1 = Some p
     \<and> hd (filter (\<lambda>x. burst x = burst p) ready1) = p
     \<and> (\<forall>b. subseq (filter (\<lambda>x. burst x = b) ready1) (js_sort (by_key arrival) processes))
     \<and> sorted (map arrival (js_sort (by_key arrival) processes))
     \<and> (\<forall>a. filter (\<lambda>x. arrival x = a) (js_sort (by_key arrival) processes)
              = filter (\<lambda>x. arrival x = a) processes)
     \<and> select_reaches (by_key burst) (js_sort (by_key arrival) processes) i1 rest
          (js_add time (burst p)) (segments @ [run_segment p time (js_add time (burst p))])
     \<and> scheduleSJF processes = Inr res
     \<and> prefix (segments @ [run_segment p time (js_add time (burst p))]) res"
proof -
  let ?remaining = "js_sort (by_key arrival) processes"
  let ?tw = "takeWhile (\<lambda>p. arrival p \<le> time) (drop i ?remaining)"
  from assms(2) have r1: "ready1 = ready @ ?tw" and i1: "i1 = i + length ?tw"
    by (simp_all add: enqueueArrivals_eq)
  from assms(3) obtain p rest where sorted: "js_sort (by_key burst) ready1 = p # rest"
    by (cases "js_sort (by_key burst) ready1") (simp_all add: js_sort_Nil_iff)
  then have fs: "first_shortest ready1 = Some p"
    by (rule head_of_sort_is_first_shortest)
  have guard: "i < length ?remaining \<or> ready \<noteq> []"
  proof (rule ccontr)
    assume "\<not> (i < length ?remaining \<or> ready \<noteq> [])"
    with r1 have "ready1 = []" by simp
    with assms(3) show False by simp
  qed
  have order: "subseq (filter (\<lambda>x. burst x = b) ready1) ?remaining" for b
  proof -
    have "subseq (filter (\<lambda>x. burst x = b) ?tw) ?tw"
      by simp
    with select_reaches_order [OF assms(1), of b]
    have "subseq (filter (\<lambda>x. burst x = b) ready @ filter (\<lambda>x. burst x = b) ?tw)
        (take i ?remaining @ ?tw)"
      by (rule list_emb_append_mono)
    then have "subseq (filter (\<lambda>x. burst x = b) ready1) (take i1 ?remaining)"
      by (simp add: r1 i1 take_takeWhile_drop)
    moreover have "subseq (take i1 ?remaining) ?remaining"
      by (metis append_take_drop_id subseq_order.order_refl list_emb_append_mono list_emb_Nil
          append_Nil2)
    ultimately show ?thesis
      by (rule subseq_order.order_trans)
  qed
  have next_state: "select_reaches (by_key burst) ?remaining i1 rest (js_add time (burst p))
      (segments @ [run_segment p time (js_add time (burst p))])"
    using assms(1) guard assms(2) sorted by (rule select_reaches.runs)
  obtain res where res: "scheduleSJF processes = Inr res"
    using select_loop_returns [of "by_key burst" ?remaining 0 "[]" 0 "[]"]
    by (auto simp: scheduleSJF_def)
  with select_reaches_result [OF next_state]
  have "select_loop (by_key burst) ?remaining i1 rest (js_add time (burst p))
      (segments @ [run_segment p time (js_add time (burst p))]) = Inr res"
    by (simp add: scheduleSJF_def)
  then have pre: "prefix (segments @ [run_segment p time (js_add time (burst p))]) res"
    by (rule select_loop_prefix)
  show ?thesis
  proof (rule exI [of _ p], rule exI [of _ rest], rule exI [of _ res], intro conjI allI)
    show "js_sort (by_key burst) ready1 = p # rest" by (rule sorted)
    show "first_shortest ready1 = Some p" by (rule fs)
    show "hd (filter (\<lambda>x. burst x = burst p) ready1) = p"
      using fs by (rule first_shortest_first_tie)
    show "subseq (filter (\<lambda>x. burst x = b) ready1) ?remaining" for b
      by (rule order)
    show "sorted (map arrival ?remaining)"
      by (rule sorted_js_sort)
    show "filter (\<lambda>x. arrival x = a) ?remaining = filter (\<lambda>x. arrival x = a) processes" for a
      by (rule js_sort_stable)
    show "select_reaches (by_key burst) ?remaining i1 rest (js_add time (burst p))
        (segments @ [run_segment p time (js_add time (burst p))])"
      by (rule next_state)
    show "scheduleSJF processes = Inr res" by (rule res)
    show "prefix (segments @ [run_segment p time (js_add time (burst p))]) res"
      by (rule pre)
  qed
qed

text \<open>
  Three processes, two of them with equal burst and equal arrival. After \<open>A\<close> has run from 0
  to 5 the ready list is \<open>B, C\<close>, in the order of the input, and \<open>B\<close> is selected.
\<close>

definition tie_processes :: "process list" where
  "tie_processes =
     [\<lparr>proc_id = ''A'', arrival = 0, burst = 5, priority = 1\<rparr>,
      \<lparr>proc_id = ''B'', arrival = 1, burst = 3, priority = 1\<rparr>,
      \<lparr>proc_id = ''C'', arrival = 1, burst = 3, priority = 1\<rparr>]"

theorem sjf_tie_break_witness:
  "select_reaches (by_key burst) (js_sort (by_key arrival) tie_processes) 1 [] 5
      [\<lparr>pid = ''A'', start = 0, seg_end = 5\<rparr>]
   \<and> enqueueArrivals (js_sort (by_key arrival) tie_processes) 5 [] 1
       = ([\<lparr>proc_id = ''B'', arrival = 1, burst = 3, priority = 1\<rparr>,
           \<lparr>proc_id = ''C'', arrival = 1, burst = 3, priority = 1\<rparr>], 3)
   \<and> first_shortest [\<lparr>proc_id = ''B'', arrival = 1, burst = 3, priority = 1\<rparr>,
                      \<lparr>proc_id = ''C'', arrival = 1, burst = 3, priority = 1\<rparr>]
       = Some \<lparr>proc_id = ''B'', arrival = 1, burst = 3, priority = 1\<rparr>
   \<and> (\<exists>res. scheduleSJF tie_processes = Inr res
          \<and> prefix [\<lparr>pid = ''A'', start = 0, seg_end = 5\<rparr>, \<lparr>pid = ''B'', start = 5, seg_end = 8\<rparr>] res)"
proof -
  let ?A = "\<lparr>proc_id = ''A'', arrival = 0, burst = 5, priority = 1\<rparr>"
  let ?B = "\<lparr>proc_id = ''B'', arrival = 1, burst = 3, priority = 1\<rparr>"
  let ?C = "\<lparr>proc_id = ''C'', arrival = 1, burst = 3, priority = 1\<rparr>"
  let ?remaining = "js_sort (by_key arrival) tie_processes"
  have e0: "enqueueArrivals ?remaining 0 [] 0 = ([?A], 1)"
    by code_simp
  have s0: "js_sort (by_key burst) [?A] = ?A # []"
    by code_simp
  have g0: "0 < length ?remaining \<or> ([] :: process list) \<noteq> []"
    by code_simp
  have "select_reaches (by_key burst) ?remaining 1 [] (js_add 0 (burst ?A))
      ([] @ [run_segment ?A 0 (js_add 0 (burst ?A))])"
    using select_reaches.first g0 e0 s0 by (rule select_reaches.runs)
  moreover have "js_add 0 (burst ?A) = 5"
    by code_simp
  ultimately have reach: "select_reaches (by_key burst) ?remaining 1 [] 5
      [\<lparr>pid = ''A'', start = 0, seg_end = 5\<rparr>]"
    by (simp add: run_segment_def)
  have enq: "enqueueArrivals ?remaining 5 [] 1 = ([?B, ?C], 3)"
    by code_simp
  have ne: "[?B, ?C] \<noteq> []" by simp
  from sjf_tie_break [OF reach enq ne] obtain p rest res
    where p: "js_sort (by_key burst) [?B, ?C] = p # rest" "first_shortest [?B, ?C] = Some p"
      "scheduleSJF tie_processes = Inr res"
      "prefix ([\<lparr>pid = ''A'', start = 0, seg_end = 5\<rparr>] @ [run_segment p 5 (js_add 5 (burst p))]) res"
    by blast
  have "js_sort (by_key burst) [?B, ?C] = ?B # [?C]"
    by code_simp
  with p(1) have pB: "p = ?B" by simp
  have "js_add 5 (burst ?B) = 8"
    by code_simp
  with p(4) pB have "prefix [\<lparr>pid = ''A'', start = 0, seg_end = 5\<rparr>, \<lparr>pid = ''B'', start = 5, seg_end = 8\<rparr>] res"
    by (simp add: run_segment_def)
  with p(2,3) pB reach enq show ?thesis
    by blast
qed

section \<open>Round robin: rounds, invariant and measure\<close>

text \<open>The condition of the \<^verbatim>\<open>while\<close> loop.\<close>

definition rr_guard :: "process list \<Rightarrow> rr_state \<Rightarrow> bool" where
  "rr_guard procs s \<longleftrightarrow> rr_queue s \<noteq> [] \<or> rr_i s < length procs"

lemma rr_loop_over: "\<not> rr_guard procs s \<Longrightarrow> rr_loop procs q s = Some (Inr (rr_segments s))"
  by (subst rr_loop.simps) (simp add: rr_guard_def)

lemma rr_loop_round:
  "rr_guard procs s \<Longrightarrow> rr_step procs q s = Inr s' \<Longrightarrow> rr_loop procs q s = rr_loop procs q s'"
  by (subst rr_loop.simps) (simp add: rr_guard_def)

text \<open>
  The rule for the loop: an invariant that every round keeps, and a measure that every
  round decreases, give a final state in which the invariant holds and the loop condition
  does not; the loop returns the segments of that state.
\<close>

lemma rr_loop_rule:
  assumes round: "\<And>s. I s \<Longrightarrow> rr_guard procs s \<Longrightarrow>
      \<exists>s'. rr_step procs q s = Inr s' \<and> I s' \<and> m s' < (m s :: nat)"
  shows "I s \<Longrightarrow> \<exists>s'. I s' \<and> \<not> rr_guard procs s' \<and> rr_loop procs q s = Some (Inr (rr_segments s'))"
proof (induction "m s" arbitrary: s rule: less_induct)
  case less
  show ?case
  proof (cases "rr_guard procs s")
    case False
    with less.prems show ?thesis
      by (auto simp: rr_loop_over)
  next
    case True
    with less.prems round obtain s1
      where s1: "rr_step procs q s = Inr s1" "I s1" "m s1 < m s"
      by blast
    from less.hyps [OF s1(3) s1(2)] obtain s'
      where "I s'" "\<not> rr_guard procs s'" "rr_loop procs q s1 = Some (Inr (rr_segments s'))"
      by blast
    with True s1(1) show ?thesis
      by (auto simp: rr_loop_round)
  qed
qed

lemma rr_enqueue_eq:
  "rr_enqueue procs t s =
     s\<lparr>rr_queue := rr_queue s @ takeWhile (\<lambda>p. arrival p \<le> t) (drop (rr_i s) procs),
       rr_i := rr_i s + length (takeWhile (\<lambda>p. arrival p \<le> t) (drop (rr_i s) procs))\<rparr>"
  by (simp add: rr_enqueue_def enqueueArrivals_eq)

text \<open>The two rounds: idling until the next arrival, and running the head of the queue.\<close>

lemma rr_step_idle:
  assumes "rr_queue s = []" and "rr_i s < length procs"
    and "rr_time s < arrival (procs ! rr_i s)"
  shows "rr_step procs q s =
     Inr (s\<lparr>rr_segments := rr_segments s @ [idle_segment (rr_time s) (arrival (procs ! rr_i s))],
            rr_time := arrival (procs ! rr_i s),
            rr_queue := takeWhile (\<lambda>p. arrival p \<le> arrival (procs ! rr_i s)) (drop (rr_i s) procs),
            rr_i := rr_i s
              + length (takeWhile (\<lambda>p. arrival p \<le> arrival (procs ! rr_i s)) (drop (rr_i s) procs))\<rparr>)"
  using assms by (simp add: rr_step_def rr_enqueue_eq Let_def)


lemma rr_step_run:
  assumes "rr_queue s = current # rest" and "rr_remainingBurst s (proc_id current) = Some rem"
  shows "rr_step procs q s =
     Inr (s\<lparr>rr_segments := rr_segments s
              @ [run_segment current (rr_time s) (js_add (rr_time s) (min q rem))],
            rr_time := js_add (rr_time s) (min q rem),
            rr_queue := rest
              @ takeWhile (\<lambda>p. arrival p \<le> js_add (rr_time s) (min q rem)) (drop (rr_i s) procs)
              @ (if 0 < js_sub rem (min q rem) then [current] else []),
            rr_i := rr_i s
              + length (takeWhile (\<lambda>p. arrival p \<le> js_add (rr_time s) (min q rem))
                          (drop (rr_i s) procs)),
            rr_remainingBurst :=
              (if 0 < js_sub rem (min q rem)
               then (rr_remainingBurst s)(proc_id current \<mapsto> js_sub rem (min q rem))
               else (rr_remainingBurst s)(proc_id current := None))\<rparr>)"
  using assms by (simp add: rr_step_def rr_enqueue_eq Let_def)

subsection \<open>Lists: the arrivals between two indices\<close>

lemma set_drop_split:
  "set (drop i xs) =
     set (takeWhile P (drop i xs)) \<union> set (drop (i + length (takeWhile P (drop i xs))) xs)"
proof -
  have "set (drop i xs) = set (takeWhile P (drop i xs) @ dropWhile P (drop i xs))"
    by simp
  then show ?thesis
    by (simp only: set_append drop_takeWhile_dropWhile)
qed

lemma takeWhile_weaker:
  "(\<And>x. P x \<Longrightarrow> Q x) \<Longrightarrow> takeWhile Q xs = takeWhile P xs @ takeWhile Q (dropWhile P xs)"
  by (induction xs) auto

lemma length_takeWhile_advance:
  assumes "\<And>x. P x \<Longrightarrow> Q x" and "i = length (takeWhile P xs)"
  shows "i + length (takeWhile Q (drop i xs)) = length (takeWhile Q xs)"
proof -
  from assms(2) have "drop i xs = dropWhile P xs"
    by (simp add: dropWhile_eq_drop)
  with assms(2) takeWhile_weaker [of P Q xs, OF assms(1)] show ?thesis
    by simp
qed

lemma takeWhile_index_bound:
  "i + length (takeWhile P (drop i xs)) \<le> length xs \<or> takeWhile P (drop i xs) = []"
proof (cases "i \<le> length xs")
  case True
  have "length (takeWhile P (drop i xs)) \<le> length xs - i"
    using length_takeWhile_le [of P "drop i xs"] by simp
  with True show ?thesis by linarith
next
  case False
  then show ?thesis by simp
qed

lemma arrived_pending_disjoint:
  "distinct xs \<Longrightarrow> set (take i xs) \<inter> set (takeWhile P (drop i xs)) = {}"
proof -
  assume "distinct xs"
  then have "set (take i xs) \<inter> set (drop i xs) = {}"
    by (simp add: set_take_disj_set_drop_if_distinct)
  moreover have "set (takeWhile P (drop i xs)) \<subseteq> set (drop i xs)"
    by (auto dest: set_takeWhileD)
  ultimately show ?thesis by blast
qed

lemma sum_list_key_update:
  fixes g g' :: "'k \<Rightarrow> nat"
  assumes "distinct (map f xs)" and "c \<in> set xs" and "\<And>y. y \<noteq> f c \<Longrightarrow> g' y = g y"
  shows "sum_list (map (\<lambda>p. g' (f p)) xs) + g (f c) = sum_list (map (\<lambda>p. g (f p)) xs) + g' (f c)"
  using assms(1,2)
proof (induction xs)
  case Nil
  then show ?case by simp
next
  case (Cons y ys)
  show ?case
  proof (cases "y = c")
    case True
    from Cons.prems have "f c \<notin> f ` set ys"
      using True by simp
    then have "\<forall>p\<in>set ys. f p \<noteq> f c" by (metis imageI)
    then have "map (\<lambda>p. g' (f p)) ys = map (\<lambda>p. g (f p)) ys"
      by (simp add: assms(3))
    then have "sum_list (map (\<lambda>p. g' (f p)) ys) = sum_list (map (\<lambda>p. g (f p)) ys)"
      by (rule arg_cong)
    with True show ?thesis by simp
  next
    case False
    with Cons.prems have "c \<in> set ys" "distinct (map f ys)" "f y \<noteq> f c"
      by auto
    with Cons.IH assms(3) [of "f y"] show ?thesis by simp
  qed
qed

subsection \<open>The invariant\<close>

text \<open>The remaining burst of an id in the table, 0 when the id has been deleted.\<close>

definition rr_rem :: "rr_state \<Rightarrow> string \<Rightarrow> int" where
  "rr_rem s x = (case rr_remainingBurst s x of Some r \<Rightarrow> r | None \<Rightarrow> 0)"

text \<open>
  What decreases in every round: the burst that remains in the table, together with the
  number of processes that are still pending.
\<close>

definition rr_measure :: "process list \<Rightarrow> rr_state \<Rightarrow> nat" where
  "rr_measure procs s =
     sum_list (map (\<lambda>p. nat (rr_rem s (proc_id p))) procs) + (length procs - rr_i s)"

text \<open>
  At the head of the loop: the index \<open>i\<close> stands behind the processes that have arrived by
  \<open>time\<close>; the queue holds arrived processes, each once; the table has an entry, a finite
  double of at least 1, exactly for the processes that are queued or pending; the time is a
  number that is not negative (a finite double or \<^verbatim>\<open>Infinity\<close>).
\<close>


definition rr_index_inv :: "process list \<Rightarrow> rr_state \<Rightarrow> bool" where
  "rr_index_inv procs s \<longleftrightarrow> rr_i s = length (takeWhile (\<lambda>p. arrival p \<le> rr_time s) procs)"

definition rr_queue_inv :: "process list \<Rightarrow> rr_state \<Rightarrow> bool" where
  "rr_queue_inv procs s \<longleftrightarrow>
     distinct (rr_queue s) \<and> set (rr_queue s) \<subseteq> set (take (rr_i s) procs)"

definition rr_table_inv :: "process list \<Rightarrow> rr_state \<Rightarrow> bool" where
  "rr_table_inv procs s \<longleftrightarrow>
     (\<forall>p\<in>set procs. (rr_remainingBurst s (proc_id p) \<noteq> None)
        = (p \<in> set (rr_queue s) \<or> p \<in> set (drop (rr_i s) procs)))
     \<and> (\<forall>p\<in>set procs. \<forall>r. rr_remainingBurst s (proc_id p) = Some r \<longrightarrow> 1 \<le> r \<and> is_double r)"

definition rr_time_inv :: "rr_state \<Rightarrow> bool" where
  "rr_time_inv s \<longleftrightarrow> 0 \<le> rr_time s \<and> round_double (rr_time s) = rr_time s"

definition rr_inv :: "process list \<Rightarrow> rr_state \<Rightarrow> bool" where
  "rr_inv procs s \<longleftrightarrow>
     rr_index_inv procs s \<and> rr_queue_inv procs s \<and> rr_table_inv procs s \<and> rr_time_inv s"

lemma rr_index_inv_advance:
  assumes "rr_index_inv procs s" and "rr_time s \<le> rr_time s'"
    and "rr_i s' = rr_i s
      + length (takeWhile (\<lambda>p. arrival p \<le> rr_time s') (drop (rr_i s) procs))"
  shows "rr_index_inv procs s'"
proof -
  have "rr_i s + length (takeWhile (\<lambda>p. arrival p \<le> rr_time s') (drop (rr_i s) procs))
      = length (takeWhile (\<lambda>p. arrival p \<le> rr_time s') procs)"
  proof (rule length_takeWhile_advance [where P = "\<lambda>p. arrival p \<le> rr_time s"])
    show "arrival x \<le> rr_time s'" if "arrival x \<le> rr_time s" for x
      using that assms(2) by simp
    show "rr_i s = length (takeWhile (\<lambda>p. arrival p \<le> rr_time s) procs)"
      using assms(1) by (simp add: rr_index_inv_def)
  qed
  with assms(3) show ?thesis
    by (simp add: rr_index_inv_def)
qed

lemma rr_index_bound: "rr_index_inv procs s \<Longrightarrow> rr_i s \<le> length procs"
  by (simp add: rr_index_inv_def length_takeWhile_le)

lemma rr_index_not_arrived:
  "rr_index_inv procs s \<Longrightarrow> rr_i s < length procs \<Longrightarrow> rr_time s < arrival (procs ! rr_i s)"
  using nth_length_takeWhile [of "\<lambda>p. arrival p \<le> rr_time s" procs]
  by (simp add: rr_index_inv_def)

lemma distinct_procs: "distinct (map proc_id procs) \<Longrightarrow> distinct procs"
  by (simp add: distinct_map)

lemma same_id_same_process:
  "distinct (map proc_id procs) \<Longrightarrow> p \<in> set procs \<Longrightarrow> c \<in> set procs \<Longrightarrow>
     proc_id p = proc_id c \<longleftrightarrow> p = c"
  by (auto simp: distinct_map dest: inj_onD)

lemma rr_queue_inv_advance:
  assumes d: "distinct (map proc_id procs)"
    and inv: "distinct (rest @ behind)" "set (rest @ behind) \<subseteq> set (take i procs)"
    and q: "queue' = rest @ takeWhile P (drop i procs) @ behind"
    and i: "i' = i + length (takeWhile P (drop i procs))"
  shows "distinct queue' \<and> set queue' \<subseteq> set (take i' procs)"
proof -
  let ?tw = "takeWhile P (drop i procs)"
  from d have dp: "distinct procs" by (rule distinct_procs)
  then have "distinct ?tw"
    by (simp add: distinct_takeWhile)
  moreover from dp have "set (take i procs) \<inter> set ?tw = {}"
    by (rule arrived_pending_disjoint)
  ultimately have "distinct (rest @ ?tw @ behind)"
    using inv by auto
  moreover have "set (rest @ ?tw @ behind) \<subseteq> set (take i' procs)"
    using inv(2) by (auto simp: i take_takeWhile_drop)
  ultimately show ?thesis
    by (simp add: q)
qed


lemma rr_inv_parts:
  "rr_inv procs s \<Longrightarrow> rr_index_inv procs s"
  "rr_inv procs s \<Longrightarrow> rr_queue_inv procs s"
  "rr_inv procs s \<Longrightarrow> rr_table_inv procs s"
  "rr_inv procs s \<Longrightarrow> rr_time_inv s"
  by (simp_all add: rr_inv_def)

text \<open>The fields that round robin reads are finite doubles, and no arrival is negative.\<close>

definition rr_fields :: "process list \<Rightarrow> bool" where
  "rr_fields procs \<longleftrightarrow>
     (\<forall>p\<in>set procs. 0 \<le> arrival p \<and> is_double (arrival p) \<and> 1 \<le> burst p \<and> is_double (burst p))"

subsection \<open>The idle round\<close>

lemma rr_idle_round:
  assumes d: "distinct (map proc_id procs)" and nums: "rr_fields procs" and inv: "rr_inv procs s"
    and q: "rr_queue s = []" and i: "rr_i s < length procs"
  shows "\<exists>s'. rr_step procs q s = Inr s' \<and> rr_inv procs s'
     \<and> rr_measure procs s' < rr_measure procs s
     \<and> rr_time s < rr_time s' \<and> rr_i s < rr_i s' \<and> rr_i s' \<le> length procs
     \<and> rr_segments s' = rr_segments s @ [idle_segment (rr_time s) (rr_time s')]
     \<and> rr_time s' = arrival (procs ! rr_i s)
     \<and> rr_remainingBurst s' = rr_remainingBurst s"
proof -
  let ?a = "arrival (procs ! rr_i s)"
  let ?P = "\<lambda>p. arrival p \<le> ?a"
  let ?tw = "takeWhile ?P (drop (rr_i s) procs)"
  define s' where "s' = s\<lparr>rr_segments := rr_segments s @ [idle_segment (rr_time s) ?a],
      rr_time := ?a, rr_queue := ?tw, rr_i := rr_i s + length ?tw\<rparr>"
  note parts = rr_inv_parts [OF inv]
  from parts(1) i have lt: "rr_time s < ?a"
    by (rule rr_index_not_arrived)
  have step: "rr_step procs q s = Inr s'"
    unfolding s'_def using q i lt by (rule rr_step_idle)
  have f: "rr_queue s' = ?tw" "rr_i s' = rr_i s + length ?tw" "rr_time s' = ?a"
    "rr_segments s' = rr_segments s @ [idle_segment (rr_time s) ?a]"
    "rr_remainingBurst s' = rr_remainingBurst s"
    by (simp_all add: s'_def)
  from i have "drop (rr_i s) procs = procs ! rr_i s # drop (Suc (rr_i s)) procs"
    by (simp add: Cons_nth_drop_Suc)
  then have tw: "?tw \<noteq> []" by simp
  have bound: "rr_i s' \<le> length procs"
    using takeWhile_index_bound [of "rr_i s" ?P procs] tw f(2) by simp
  have up: "rr_i s < rr_i s'"
    using tw f(2) by simp
  have idx': "rr_index_inv procs s'"
    using parts(1) by (rule rr_index_inv_advance) (simp_all add: f lt less_imp_le)
  have "distinct (rr_queue s') \<and> set (rr_queue s') \<subseteq> set (take (rr_i s') procs)"
    by (rule rr_queue_inv_advance [where rest = "[]" and behind = "[]" and i = "rr_i s" and P = "?P"])
       (simp_all add: d f)
  then have qi': "rr_queue_inv procs s'"
    by (simp add: rr_queue_inv_def)
  have ti': "rr_table_inv procs s'"
    using parts(3) q set_drop_split [of "rr_i s" procs ?P]
    by (simp add: rr_table_inv_def f)
  from i have "procs ! rr_i s \<in> set procs" by simp
  with nums have "0 \<le> ?a" "is_double ?a"
    by (simp_all add: rr_fields_def)
  then have tm': "rr_time_inv s'"
    by (simp add: rr_time_inv_def f is_double_def)
  have "rr_rem s' = rr_rem s"
    by (simp add: rr_rem_def fun_eq_iff f)
  then have m: "rr_measure procs s' < rr_measure procs s"
    using i up by (simp add: rr_measure_def)
  show ?thesis
  proof (rule exI [of _ s'], intro conjI)
    show "rr_step procs q s = Inr s'" by (rule step)
    show "rr_inv procs s'"
      using idx' qi' ti' tm' by (simp add: rr_inv_def)
    show "rr_measure procs s' < rr_measure procs s" by (rule m)
    show "rr_time s < rr_time s'"
      using lt by (simp add: f(3))
    show "rr_i s < rr_i s'" by (rule up)
    show "rr_i s' \<le> length procs" by (rule bound)
    show "rr_segments s' = rr_segments s @ [idle_segment (rr_time s) (rr_time s')]"
      by (simp add: f(3,4))
    show "rr_time s' = ?a" by (rule f(3))
    show "rr_remainingBurst s' = rr_remainingBurst s" by (rule f(5))
  qed
qed

subsection \<open>The running round\<close>

lemma rr_run_round:
  assumes d: "distinct (map proc_id procs)" and q1: "1 \<le> q" and inv: "rr_inv procs s"
    and queue: "rr_queue s = current # rest"
  shows "\<exists>rem s'. rr_remainingBurst s (proc_id current) = Some rem \<and> 1 \<le> rem \<and> is_double rem
     \<and> current \<in> set (take (rr_i s) procs)
     \<and> rr_step procs q s = Inr s' \<and> rr_inv procs s'
     \<and> rr_time s' = js_add (rr_time s) (min q rem) \<and> rr_time s \<le> rr_time s'
     \<and> rr_i s \<le> rr_i s' \<and> rr_i s' \<le> length procs
     \<and> rr_segments s' = rr_segments s @ [run_segment current (rr_time s) (rr_time s')]
     \<and> rr_queue s' = rest @ takeWhile (\<lambda>p. arrival p \<le> rr_time s') (drop (rr_i s) procs)
           @ (if q < rem then [current] else [])
     \<and> rr_remainingBurst s' =
          (if q < rem then (rr_remainingBurst s)(proc_id current \<mapsto> js_sub rem q)
           else (rr_remainingBurst s)(proc_id current := None))"
proof -
  note parts = rr_inv_parts [OF inv]
  from parts(2) queue have cur: "current \<in> set (take (rr_i s) procs)"
    and nr: "current \<notin> set rest" and dr: "distinct rest"
    and rs: "set rest \<subseteq> set (take (rr_i s) procs)"
    by (auto simp: rr_queue_inv_def)
  from cur have cp: "current \<in> set procs"
    by (rule in_set_takeD)
  from parts(3) cp queue have "rr_remainingBurst s (proc_id current) \<noteq> None"
    by (simp add: rr_table_inv_def)
  then obtain rem where rem: "rr_remainingBurst s (proc_id current) = Some rem"
    by blast
  with parts(3) cp have rem1: "1 \<le> rem" and remd: "is_double rem"
    by (simp_all add: rr_table_inv_def)
  let ?sl = "min q rem"
  from q1 rem1 have sl: "1 \<le> ?sl" "?sl \<le> rem" by simp_all
  from sl have sl0: "0 \<le> ?sl" by simp
  note sub = js_sub_remaining [OF remd sl0 sl(2)]
  have keep: "0 < js_sub rem ?sl \<longleftrightarrow> q < rem"
    using sub(3) by (simp add: min_less_iff_disj)
  have subq: "js_sub rem ?sl = js_sub rem q" if "q < rem"
    using that by (simp add: min_def)
  from remd have "rem < js_infinity"
    by (simp add: is_double_def abs_less_iff)
  with sl(2) have slfin: "?sl < js_infinity"
    by linarith
  from parts(4) have t0: "0 \<le> rr_time s" and tn: "round_double (rr_time s) = rr_time s"
    by (simp_all add: rr_time_inv_def)
  let ?t = "js_add (rr_time s) ?sl"
  from t0 tn sl0 have mono: "rr_time s \<le> ?t"
    by (rule js_add_ge)
  note num = js_add_number [OF t0 tn sl0 slfin]
  let ?P = "\<lambda>p. arrival p \<le> ?t"
  let ?tw = "takeWhile ?P (drop (rr_i s) procs)"
  define s' where "s' = s\<lparr>rr_segments := rr_segments s @ [run_segment current (rr_time s) ?t],
      rr_time := ?t,
      rr_queue := rest @ ?tw @ (if 0 < js_sub rem ?sl then [current] else []),
      rr_i := rr_i s + length ?tw,
      rr_remainingBurst :=
        (if 0 < js_sub rem ?sl then (rr_remainingBurst s)(proc_id current \<mapsto> js_sub rem ?sl)
         else (rr_remainingBurst s)(proc_id current := None))\<rparr>"
  have step: "rr_step procs q s = Inr s'"
    unfolding s'_def using queue rem by (rule rr_step_run)
  have f: "rr_queue s' = rest @ ?tw @ (if q < rem then [current] else [])"
    "rr_i s' = rr_i s + length ?tw" "rr_time s' = ?t"
    "rr_segments s' = rr_segments s @ [run_segment current (rr_time s) ?t]"
    "rr_remainingBurst s' =
       (if q < rem then (rr_remainingBurst s)(proc_id current \<mapsto> js_sub rem q)
        else (rr_remainingBurst s)(proc_id current := None))"
    using subq by (simp_all add: s'_def keep)
  have bound: "rr_i s' \<le> length procs"
    using takeWhile_index_bound [of "rr_i s" ?P procs] rr_index_bound [OF parts(1)] f(2)
    by auto
  have idx': "rr_index_inv procs s'"
    using parts(1) by (rule rr_index_inv_advance) (use mono in \<open>simp_all add: f\<close>)
  have "distinct (rr_queue s') \<and> set (rr_queue s') \<subseteq> set (take (rr_i s') procs)"
  proof (rule rr_queue_inv_advance [where rest = rest and i = "rr_i s" and P = "?P"
        and behind = "if q < rem then [current] else []"])
    show "distinct (map proc_id procs)" by (rule d)
    show "distinct (rest @ (if q < rem then [current] else []))"
      using dr nr by auto
    show "set (rest @ (if q < rem then [current] else [])) \<subseteq> set (take (rr_i s) procs)"
      using rs cur by auto
  qed (simp_all add: f)
  then have qi': "rr_queue_inv procs s'"
    by (simp add: rr_queue_inv_def)
  have same: "(proc_id p = proc_id current) = (p = current)" if "p \<in> set procs" for p
    using d that cp by (rule same_id_same_process)
  have "set (take (rr_i s) procs) \<inter> set (drop (rr_i s) procs) = {}"
    using distinct_procs [OF d] by (simp add: set_take_disj_set_drop_if_distinct)
  with cur have cnd: "current \<notin> set (drop (rr_i s) procs)"
    by blast
  note split = set_drop_split [of "rr_i s" procs ?P]
  from parts(3) queue
  have t1: "(rr_remainingBurst s (proc_id p) \<noteq> None)
      = (p = current \<or> p \<in> set rest \<or> p \<in> set (drop (rr_i s) procs))"
    and t2: "rr_remainingBurst s (proc_id p) = Some r \<Longrightarrow> 1 \<le> r \<and> is_double r"
    if "p \<in> set procs" for p r
    using that by (auto simp: rr_table_inv_def)
  have ti': "rr_table_inv procs s'"
    unfolding rr_table_inv_def
  proof (intro conjI ballI allI impI)
    fix p
    assume p: "p \<in> set procs"
    show "(rr_remainingBurst s' (proc_id p) \<noteq> None)
        = (p \<in> set (rr_queue s') \<or> p \<in> set (drop (rr_i s') procs))"
    proof (cases "p = current")
      case True
      from cnd split have "current \<notin> set ?tw"
        and "current \<notin> set (drop (rr_i s + length ?tw) procs)"
        by blast+
      with True nr show ?thesis
        by (simp add: f)
    next
      case False
      with same [OF p] have "proc_id p \<noteq> proc_id current" by simp
      with False t1 [OF p] split show ?thesis
        by (auto simp: f)
    qed
  next
    fix p r
    assume p: "p \<in> set procs" and r: "rr_remainingBurst s' (proc_id p) = Some r"
    have "1 \<le> r \<and> is_double r"
    proof (cases "proc_id p = proc_id current")
      case True
      with r have "q < rem" and "r = js_sub rem ?sl"
        using subq by (auto simp: f split: if_splits)
      with sub(1) keep show ?thesis by simp
    next
      case False
      with r have "rr_remainingBurst s (proc_id p) = Some r"
        by (auto simp: f split: if_splits)
      with p show ?thesis by (rule t2)
    qed
    then show "1 \<le> r" and "is_double r" by simp_all
  qed
  have tm': "rr_time_inv s'"
    using num by (simp add: rr_time_inv_def f)
  show ?thesis
  proof (rule exI [of _ rem], rule exI [of _ s'], intro conjI)
    show "rr_remainingBurst s (proc_id current) = Some rem" by (rule rem)
    show "1 \<le> rem" by (rule rem1)
    show "is_double rem" by (rule remd)
    show "current \<in> set (take (rr_i s) procs)" by (rule cur)
    show "rr_step procs q s = Inr s'" by (rule step)
    show "rr_inv procs s'"
      using idx' qi' ti' tm' by (simp add: rr_inv_def)
    show "rr_time s' = js_add (rr_time s) (min q rem)" by (rule f(3))
    show "rr_time s \<le> rr_time s'"
      using mono by (simp add: f(3))
    show "rr_i s \<le> rr_i s'" by (simp add: f(2))
    show "rr_i s' \<le> length procs" by (rule bound)
    show "rr_segments s' = rr_segments s @ [run_segment current (rr_time s) (rr_time s')]"
      by (simp add: f(3,4))
    show "rr_queue s' = rest @ takeWhile (\<lambda>p. arrival p \<le> rr_time s') (drop (rr_i s) procs)
        @ (if q < rem then [current] else [])"
      by (simp only: f(1,3))
    show "rr_remainingBurst s' =
        (if q < rem then (rr_remainingBurst s)(proc_id current \<mapsto> js_sub rem q)
         else (rr_remainingBurst s)(proc_id current := None))"
      by (rule f(5))
  qed
qed

subsection \<open>The first state\<close>

lemma remaining_table_other:
  "x \<notin> proc_id ` set procs \<Longrightarrow> foldl (\<lambda>m p. m(proc_id p \<mapsto> burst p)) m procs x = m x"
  by (induction procs arbitrary: m) auto

lemma remaining_table_entry:
  "distinct (map proc_id procs) \<Longrightarrow> p \<in> set procs \<Longrightarrow>
     foldl (\<lambda>m p. m(proc_id p \<mapsto> burst p)) m procs (proc_id p) = Some (burst p)"
proof (induction procs arbitrary: m)
  case Nil
  then show ?case by simp
next
  case (Cons a procs)
  show ?case
  proof (cases "p = a")
    case True
    from Cons.prems have "proc_id a \<notin> proc_id ` set procs" by simp
    then have "foldl (\<lambda>m p. m(proc_id p \<mapsto> burst p)) (m(proc_id a \<mapsto> burst a)) procs (proc_id a)
        = (m(proc_id a \<mapsto> burst a)) (proc_id a)"
      by (rule remaining_table_other)
    with True show ?thesis
      by (simp only: foldl_Cons fun_upd_same)
  next
    case False
    with Cons show ?thesis by simp
  qed
qed

lemma rr_init_eq:
  "rr_init procs =
     \<lparr>rr_remainingBurst = foldl (\<lambda>m p. m(proc_id p \<mapsto> burst p)) Map.empty procs,
      rr_queue = takeWhile (\<lambda>p. arrival p \<le> 0) procs, rr_time = 0,
      rr_i = length (takeWhile (\<lambda>p. arrival p \<le> 0) procs), rr_segments = []\<rparr>"
  by (simp add: rr_init_def rr_enqueue_eq)


lemma round_double_zero: "round_double 0 = 0"
  by (rule round_double_exact) simp

lemma rr_init_inv:
  assumes d: "distinct (map proc_id procs)" and nums: "rr_fields procs"
  shows "rr_inv procs (rr_init procs)"
proof -
  let ?tw = "takeWhile (\<lambda>p. arrival p \<le> 0) procs"
  have tw: "?tw = take (length ?tw) procs"
    by (rule takeWhile_eq_take)
  have idx: "rr_index_inv procs (rr_init procs)"
    by (simp add: rr_index_inv_def rr_init_eq)
  have "distinct ?tw"
    using distinct_procs [OF d] by (rule distinct_takeWhile)
  moreover have "set ?tw \<subseteq> set (take (length ?tw) procs)"
    using tw by simp
  ultimately have qi: "rr_queue_inv procs (rr_init procs)"
    by (simp add: rr_queue_inv_def rr_init_eq)
  have "set (?tw @ dropWhile (\<lambda>p. arrival p \<le> 0) procs) = set procs"
    by simp
  then have "set ?tw \<union> set (drop (length ?tw) procs) = set procs"
    by (simp only: set_append dropWhile_eq_drop)
  then have "p \<in> set ?tw \<or> p \<in> set (drop (length ?tw) procs)" if "p \<in> set procs" for p
    using that by blast
  with nums have ti: "rr_table_inv procs (rr_init procs)"
    by (simp add: rr_table_inv_def rr_init_eq remaining_table_entry [OF d] rr_fields_def)
  have tm: "rr_time_inv (rr_init procs)"
    by (simp add: rr_time_inv_def rr_init_eq round_double_zero)
  from idx qi ti tm show ?thesis
    by (simp add: rr_inv_def)
qed

subsection \<open>Every round\<close>

lemma rr_round:
  assumes d: "distinct (map proc_id procs)" and nums: "rr_fields procs" and q1: "1 \<le> q"
    and inv: "rr_inv procs s" and guard: "rr_guard procs s"
  shows "\<exists>s'. rr_step procs q s = Inr s' \<and> rr_inv procs s'
     \<and> (\<forall>x. rr_remainingBurst s x = None \<longrightarrow> rr_remainingBurst s' x = None)"
proof (cases "rr_queue s")
  case Nil
  with guard have "rr_i s < length procs"
    by (simp add: rr_guard_def)
  from rr_idle_round [OF d nums inv Nil this, of q] show ?thesis
    by auto
next
  case (Cons current rest)
  from rr_run_round [OF d q1 inv Cons] obtain rem s'
    where s': "rr_remainingBurst s (proc_id current) = Some rem"
      "rr_step procs q s = Inr s'" "rr_inv procs s'"
      "rr_remainingBurst s' =
          (if q < rem then (rr_remainingBurst s)(proc_id current \<mapsto> js_sub rem q)
           else (rr_remainingBurst s)(proc_id current := None))"
    by blast
  have "rr_remainingBurst s' x = None" if "rr_remainingBurst s x = None" for x
  proof -
    from that s'(1) have "x \<noteq> proc_id current" by auto
    with that show ?thesis by (simp add: s'(4))
  qed
  with s'(2,3) show ?thesis
    by (intro exI [of _ s']) simp
qed

lemma sorted_processes:
  "distinct (map proc_id (js_sort cmp processes)) = distinct (map proc_id processes)"
proof -
  have "mset (map proc_id (js_sort cmp processes)) = mset (map proc_id processes)"
    using mset_js_sort [of cmp processes] by (metis mset_map)
  then show ?thesis
    by (rule mset_eq_imp_distinct_iff)
qed

section \<open>The states that round robin reaches\<close>

text \<open>
  \<open>rr_reaches procs q s s'\<close>: the loop, started in \<open>s\<close>, is in \<open>s'\<close> at the head of some
  later round.
\<close>

inductive rr_reaches :: "process list \<Rightarrow> int \<Rightarrow> rr_state \<Rightarrow> rr_state \<Rightarrow> bool"
  for procs :: "process list" and q :: int and s :: rr_state where
  start: "rr_reaches procs q s s"
| round: "rr_reaches procs q s s1 \<Longrightarrow> rr_guard procs s1 \<Longrightarrow> rr_step procs q s1 = Inr s2
          \<Longrightarrow> rr_reaches procs q s s2"

lemma rr_reaches_inv:
  assumes d: "distinct (map proc_id procs)" and nums: "rr_fields procs" and q1: "1 \<le> q"
  shows "rr_reaches procs q s s' \<Longrightarrow> rr_inv procs s \<Longrightarrow> rr_inv procs s'"
proof (induction rule: rr_reaches.induct)
  case start
  then show ?case by simp
next
  case (round s1 s2)
  then have "rr_inv procs s1" by simp
  from rr_round [OF d nums q1 this round.hyps(2)] round.hyps(3) show ?case
    by auto
qed

lemma rr_reaches_finished:
  assumes d: "distinct (map proc_id procs)" and nums: "rr_fields procs" and q1: "1 \<le> q"
  shows "rr_reaches procs q s s' \<Longrightarrow> rr_inv procs s \<Longrightarrow>
     rr_remainingBurst s x = None \<Longrightarrow> rr_remainingBurst s' x = None"
proof (induction rule: rr_reaches.induct)
  case start
  then show ?case by simp
next
  case (round s1 s2)
  from round.hyps(1) round.prems(1) have "rr_inv procs s1"
    by (rule rr_reaches_inv [OF d nums q1])
  from rr_round [OF d nums q1 this round.hyps(2)] round.hyps(3) round.IH round.prems show ?case
    by auto
qed

text \<open>
  The fields of a process are JavaScript numbers: integers that are finite doubles.
\<close>

definition double_fields :: "process list \<Rightarrow> bool" where
  "double_fields processes \<longleftrightarrow>
     (\<forall>p\<in>set processes. is_double (arrival p) \<and> is_double (burst p) \<and> is_double (priority p))"

lemma rr_initial_inv:
  assumes "well_formed processes" and "double_fields processes"
  shows "distinct (map proc_id (js_sort (by_key arrival) processes))"
    and "rr_fields (js_sort (by_key arrival) processes)"
    and "rr_inv (js_sort (by_key arrival) processes) (rr_init (js_sort (by_key arrival) processes))"
proof -
  let ?procs = "js_sort (by_key arrival) processes"
  from assms show d: "distinct (map proc_id ?procs)"
    by (simp add: well_formed_def sorted_processes)
  from assms show nums: "rr_fields ?procs"
    by (simp add: well_formed_def double_fields_def rr_fields_def set_js_sort)
  from d nums show "rr_inv ?procs (rr_init ?procs)"
    by (rule rr_init_inv)
qed

section \<open>Round robin: arrivals before the requeued process\<close>

lemma sorted_takeWhile_filter:
  fixes f :: "'a \<Rightarrow> int"
  shows "sorted (map f xs) \<Longrightarrow> takeWhile (\<lambda>x. f x \<le> b) xs = filter (\<lambda>x. f x \<le> b) xs"
proof (induction xs)
  case Nil
  show ?case by simp
next
  case (Cons x xs)
  show ?case
  proof (cases "f x \<le> b")
    case True
    with Cons show ?thesis by simp
  next
    case False
    with Cons.prems have "\<forall>y\<in>set xs. \<not> f y \<le> b"
      by auto
    then have "filter (\<lambda>x. f x \<le> b) xs = []"
      by (simp add: filter_empty_conv)
    with False show ?thesis by simp
  qed
qed

lemma sorted_between:
  fixes f :: "'a \<Rightarrow> int"
  shows "sorted (map f xs) \<Longrightarrow>
     takeWhile (\<lambda>x. f x \<le> b) (dropWhile (\<lambda>x. f x \<le> a) xs) = filter (\<lambda>x. a < f x \<and> f x \<le> b) xs"
proof (induction xs)
  case Nil
  show ?case by simp
next
  case (Cons x xs)
  show ?case
  proof (cases "f x \<le> a")
    case True
    with Cons show ?thesis by simp
  next
    case False
    with Cons.prems have "\<forall>y\<in>set xs. a < f y"
      by auto
    then have "filter (\<lambda>x. a < f x \<and> f x \<le> b) xs = filter (\<lambda>x. f x \<le> b) xs"
      by (auto intro: filter_cong)
    moreover from Cons.prems have "takeWhile (\<lambda>x. f x \<le> b) xs = filter (\<lambda>x. f x \<le> b) xs"
      by (intro sorted_takeWhile_filter) simp
    moreover from Cons.prems have "\<forall>y\<in>set xs. f x \<le> f y"
      by simp
    ultimately show ?thesis
      using False sorted_takeWhile_filter [of f "x # xs" b] Cons.prems by simp
  qed
qed

lemma rr_arrivals_between:
  assumes "sorted (map arrival procs)" and "rr_index_inv procs s"
  shows "takeWhile (\<lambda>p. arrival p \<le> t) (drop (rr_i s) procs)
     = filter (\<lambda>p. rr_time s < arrival p \<and> arrival p \<le> t) procs"
proof -
  from assms(2) have "drop (rr_i s) procs = dropWhile (\<lambda>p. arrival p \<le> rr_time s) procs"
    by (simp add: rr_index_inv_def dropWhile_eq_drop)
  with assms(1) show ?thesis
    by (simp add: sorted_between)
qed

text \<open>
  C2. Take any state that the loop of \<open>scheduleRoundRobin\<close> reaches, on a well-formed process
  set (whose fields are JavaScript numbers) with a quantum of at least 1, in which the queue
  is not empty. The head of the queue has a remaining burst \<open>rem\<close> of at least 1 in the
  table; the round runs it for \<open>min q rem\<close> and advances the time by that (as JavaScript
  adds, which is the exact sum up to \<open>2^53\<close>). The queue after the round is the rest of the
  old queue, then the processes whose arrival lies after the old time and not after the new
  time, in the order of the list sorted by arrival, and only then, as the last element, the
  process that ran, if it has burst left, that is if \<open>q < rem\<close>; its remaining burst is then
  \<open>rem - q\<close> (as JavaScript subtracts). Otherwise its entry is deleted, and the process is in
  the queue of no state that the loop reaches from there.
\<close>

theorem round_robin_requeue_order:
  assumes "well_formed processes" and "double_fields processes" and "1 \<le> q"
    and "rr_reaches (js_sort (by_key arrival) processes) q
           (rr_init (js_sort (by_key arrival) processes)) s"
    and "rr_queue s = current # rest"
  shows "\<exists>rem s'. rr_remainingBurst s (proc_id current) = Some rem \<and> 1 \<le> rem
     \<and> rr_step (js_sort (by_key arrival) processes) q s = Inr s'
     \<and> rr_time s' = js_add (rr_time s) (min q rem)
     \<and> (rr_time s + min q rem \<le> 2 ^ 53 \<longrightarrow> rr_time s' = rr_time s + min q rem)
     \<and> rr_segments s' = rr_segments s @ [run_segment current (rr_time s) (rr_time s')]
     \<and> rr_queue s' =
          rest @ filter (\<lambda>p. rr_time s < arrival p \<and> arrival p \<le> rr_time s')
                   (js_sort (by_key arrival) processes)
               @ (if q < rem then [current] else [])
     \<and> rr_remainingBurst s' (proc_id current) = (if q < rem then Some (js_sub rem q) else None)
     \<and> (rem \<le> 2 ^ 53 \<longrightarrow>
          rr_remainingBurst s' (proc_id current) = (if q < rem then Some (rem - q) else None))
     \<and> (rem \<le> q \<longrightarrow>
          (\<forall>s''. rr_reaches (js_sort (by_key arrival) processes) q s' s''
                 \<longrightarrow> current \<notin> set (rr_queue s'')))
     \<and> sorted (map arrival (js_sort (by_key arrival) processes))"
proof -
  let ?procs = "js_sort (by_key arrival) processes"
  note init = rr_initial_inv [OF assms(1,2)]
  have inv: "rr_inv ?procs s"
    using assms(4) init(3) by (rule rr_reaches_inv [OF init(1,2) assms(3)])
  have srt: "sorted (map arrival ?procs)"
    by (rule sorted_js_sort)
  from rr_run_round [OF init(1) assms(3) inv assms(5)] obtain rem s'
    where s': "rr_remainingBurst s (proc_id current) = Some rem" "1 \<le> rem"
      "rr_step ?procs q s = Inr s'" "rr_inv ?procs s'"
      "rr_time s' = js_add (rr_time s) (min q rem)"
      "rr_segments s' = rr_segments s @ [run_segment current (rr_time s) (rr_time s')]"
      "rr_queue s' = rest @ takeWhile (\<lambda>p. arrival p \<le> rr_time s') (drop (rr_i s) ?procs)
           @ (if q < rem then [current] else [])"
      "rr_remainingBurst s' =
          (if q < rem then (rr_remainingBurst s)(proc_id current \<mapsto> js_sub rem q)
           else (rr_remainingBurst s)(proc_id current := None))"
    by blast
  from rr_inv_parts(4) [OF inv] have t0: "0 \<le> rr_time s"
    by (simp add: rr_time_inv_def)
  have exact: "rr_time s' = rr_time s + min q rem" if "rr_time s + min q rem \<le> 2 ^ 53"
    unfolding s'(5) using that t0 assms(3) s'(2) by (intro js_add_exact) simp_all
  have queue': "rr_queue s' =
      rest @ filter (\<lambda>p. rr_time s < arrival p \<and> arrival p \<le> rr_time s') ?procs
        @ (if q < rem then [current] else [])"
    using s'(7) rr_arrivals_between [OF srt rr_inv_parts(1) [OF inv], of "rr_time s'"]
    by simp
  have table': "rr_remainingBurst s' (proc_id current) = (if q < rem then Some (js_sub rem q) else None)"
    using s'(8) by simp
  have "js_sub rem q = rem - q" if "rem \<le> 2 ^ 53" "q < rem"
    using that assms(3) by (intro js_sub_exact) simp_all
  with table' have table_exact:
    "rr_remainingBurst s' (proc_id current) = (if q < rem then Some (rem - q) else None)"
    if "rem \<le> 2 ^ 53"
    using that by simp
  from rr_inv_parts(2) [OF inv] assms(5) have "current \<in> set ?procs"
    by (auto simp: rr_queue_inv_def dest: in_set_takeD)
  have never: "current \<notin> set (rr_queue s'')"
    if fin: "rem \<le> q" and reach: "rr_reaches ?procs q s' s''" for s''
  proof -
    from fin table' have "rr_remainingBurst s' (proc_id current) = None"
      by simp
    with reach s'(4) have none: "rr_remainingBurst s'' (proc_id current) = None"
      by (rule rr_reaches_finished [OF init(1,2) assms(3)])
    from reach s'(4) have "rr_inv ?procs s''"
      by (rule rr_reaches_inv [OF init(1,2) assms(3)])
    from rr_inv_parts(3) [OF this] \<open>current \<in> set ?procs\<close> none show ?thesis
      by (auto simp: rr_table_inv_def)
  qed
  show ?thesis
  proof (rule exI [of _ rem], rule exI [of _ s'], intro conjI)
    show "rr_remainingBurst s (proc_id current) = Some rem" by (rule s'(1))
    show "1 \<le> rem" by (rule s'(2))
    show "rr_step ?procs q s = Inr s'" by (rule s'(3))
    show "rr_time s' = js_add (rr_time s) (min q rem)" by (rule s'(5))
    show "rr_time s + min q rem \<le> 2 ^ 53 \<longrightarrow> rr_time s' = rr_time s + min q rem"
      using exact by blast
    show "rr_segments s' = rr_segments s @ [run_segment current (rr_time s) (rr_time s')]"
      by (rule s'(6))
    show "rr_queue s' =
      rest @ filter (\<lambda>p. rr_time s < arrival p \<and> arrival p \<le> rr_time s') ?procs
        @ (if q < rem then [current] else [])"
      by (rule queue')
    show "rr_remainingBurst s' (proc_id current) = (if q < rem then Some (js_sub rem q) else None)"
      by (rule table')
    show "rem \<le> 2 ^ 53 \<longrightarrow>
        rr_remainingBurst s' (proc_id current) = (if q < rem then Some (rem - q) else None)"
      using table_exact by blast
    show "rem \<le> q \<longrightarrow> (\<forall>s''. rr_reaches ?procs q s' s'' \<longrightarrow> current \<notin> set (rr_queue s''))"
      using never by blast
    show "sorted (map arrival ?procs)" by (rule srt)
  qed
qed

text \<open>
  The first round on the demonstration set with quantum 2: \<open>P1\<close> runs from 0 to 2, by then
  \<open>P2\<close> and \<open>P3\<close> have arrived, and they are queued before \<open>P1\<close>.
\<close>

theorem round_robin_requeue_order_witness:
  "well_formed demo_processes \<and> double_fields demo_processes \<and> (1 :: int) \<le> 2
   \<and> rr_reaches (js_sort (by_key arrival) demo_processes) 2
        (rr_init (js_sort (by_key arrival) demo_processes))
        (rr_init (js_sort (by_key arrival) demo_processes))
   \<and> rr_queue (rr_init (js_sort (by_key arrival) demo_processes))
       = [\<lparr>proc_id = ''P1'', arrival = 0, burst = 4, priority = 2\<rparr>]
   \<and> (\<exists>s'. rr_step (js_sort (by_key arrival) demo_processes) 2
               (rr_init (js_sort (by_key arrival) demo_processes)) = Inr s'
           \<and> rr_time s' = 2
           \<and> rr_queue s' =
               [\<lparr>proc_id = ''P2'', arrival = 1, burst = 3, priority = 1\<rparr>,
                \<lparr>proc_id = ''P3'', arrival = 2, burst = 6, priority = 3\<rparr>,
                \<lparr>proc_id = ''P1'', arrival = 0, burst = 4, priority = 2\<rparr>]
           \<and> rr_remainingBurst s' ''P1'' = Some 2)"
proof -
  let ?procs = "js_sort (by_key arrival) demo_processes"
  let ?P1 = "\<lparr>proc_id = ''P1'', arrival = 0, burst = 4, priority = 2\<rparr>"
  have wf: "well_formed demo_processes"
    by (simp add: well_formed_def demo_processes_def)
  have df: "double_fields demo_processes"
    by (simp add: double_fields_def demo_processes_def is_double_small)
  have q: "(1 :: int) \<le> 2" by simp
  have reach: "rr_reaches ?procs 2 (rr_init ?procs) (rr_init ?procs)"
    by (rule rr_reaches.start)
  have queue: "rr_queue (rr_init ?procs) = ?P1 # []"
    by code_simp
  have time: "rr_time (rr_init ?procs) = 0"
    by (simp add: rr_init_eq)
  have table: "rr_remainingBurst (rr_init ?procs) ''P1'' = Some 4"
    by code_simp
  from round_robin_requeue_order [OF wf df q reach queue] obtain rem s'
    where s': "rr_remainingBurst (rr_init ?procs) (proc_id ?P1) = Some rem"
      "rr_step ?procs 2 (rr_init ?procs) = Inr s'"
      "rr_time (rr_init ?procs) + min 2 rem \<le> 2 ^ 53
         \<longrightarrow> rr_time s' = rr_time (rr_init ?procs) + min 2 rem"
      "rr_queue s' =
          [] @ filter (\<lambda>p. rr_time (rr_init ?procs) < arrival p \<and> arrival p \<le> rr_time s') ?procs
             @ (if 2 < rem then [?P1] else [])"
      "rem \<le> 2 ^ 53 \<longrightarrow>
         rr_remainingBurst s' (proc_id ?P1) = (if 2 < rem then Some (rem - 2) else None)"
    by blast
  from s'(1) table have rem: "rem = 4" by simp
  from s'(3) time rem have t': "rr_time s' = 2" by simp
  have "filter (\<lambda>p. 0 < arrival p \<and> arrival p \<le> 2) ?procs =
      [\<lparr>proc_id = ''P2'', arrival = 1, burst = 3, priority = 1\<rparr>,
       \<lparr>proc_id = ''P3'', arrival = 2, burst = 6, priority = 3\<rparr>]"
    by code_simp
  with s'(4) time t' rem have "rr_queue s' =
      [\<lparr>proc_id = ''P2'', arrival = 1, burst = 3, priority = 1\<rparr>,
       \<lparr>proc_id = ''P3'', arrival = 2, burst = 6, priority = 3\<rparr>, ?P1]"
    by simp
  moreover from s'(5) rem have "rr_remainingBurst s' ''P1'' = Some 2"
    by simp
  ultimately show ?thesis
    using wf df q reach queue s'(2) t' by blast
qed

section \<open>Schedules within the exact integers\<close>

text \<open>
  Every addition of an engine is exact as long as the time stays at or below \<open>2^53\<close>, and
  the time of no schedule of a well-formed process set exceeds the latest arrival plus the
  total burst.
\<close>

definition latest_arrival :: "process list \<Rightarrow> int" where
  "latest_arrival processes = foldr max (map arrival processes) 0"

definition total_burst :: "process list \<Rightarrow> int" where
  "total_burst processes = sum_list (map burst processes)"

definition horizon :: "process list \<Rightarrow> int" where
  "horizon processes = latest_arrival processes + total_burst processes"

text \<open>
  A segment is the whole run of a process of the set when it bears its id, does not start
  before its arrival and lasts its burst; it is a slice of it when it lasts at least 1 and
  at most its burst.
\<close>

definition whole_of :: "process list \<Rightarrow> segment \<Rightarrow> bool" where
  "whole_of processes s \<longleftrightarrow>
     (\<exists>p\<in>set processes. pid s = proc_id p \<and> arrival p \<le> start s \<and> seg_end s = start s + burst p)"

definition slice_of :: "process list \<Rightarrow> segment \<Rightarrow> bool" where
  "slice_of processes s \<longleftrightarrow>
     (\<exists>p\<in>set processes. pid s = proc_id p \<and> arrival p \<le> start s
        \<and> 1 \<le> seg_end s - start s \<and> seg_end s - start s \<le> burst p)"

lemma latest_arrival_ge: "p \<in> set processes \<Longrightarrow> arrival p \<le> latest_arrival processes"
  by (induction processes) (auto simp: latest_arrival_def)

lemma latest_arrival_nonneg: "0 \<le> latest_arrival processes"
  by (induction processes) (auto simp: latest_arrival_def)

lemma latest_arrival_least:
  "0 \<le> b \<Longrightarrow> \<forall>p\<in>set processes. arrival p \<le> b \<Longrightarrow> latest_arrival processes \<le> b"
  by (induction processes) (auto simp: latest_arrival_def)

lemma latest_arrival_set:
  assumes "set ps = set qs"
  shows "latest_arrival ps = latest_arrival qs"
proof (rule antisym)
  show "latest_arrival ps \<le> latest_arrival qs"
    using assms by (intro latest_arrival_least) (simp_all add: latest_arrival_nonneg latest_arrival_ge)
  show "latest_arrival qs \<le> latest_arrival ps"
    using assms by (intro latest_arrival_least) (simp_all add: latest_arrival_nonneg latest_arrival_ge)
qed

lemma total_burst_mset: "mset ps = mset qs \<Longrightarrow> total_burst ps = total_burst qs"
proof -
  assume "mset ps = mset qs"
  then have "mset (map burst ps) = mset (map burst qs)"
    by (metis mset_map)
  then have "sum_mset (mset (map burst ps)) = sum_mset (mset (map burst qs))"
    by simp
  then show ?thesis
    by (simp only: total_burst_def sum_mset_sum_list)
qed

lemma horizon_js_sort: "horizon (js_sort cmp processes) = horizon processes"
  using latest_arrival_set [of "js_sort cmp processes" processes]
    total_burst_mset [of "js_sort cmp processes" processes]
  by (simp add: horizon_def set_js_sort mset_js_sort)

lemma total_burst_Nil: "total_burst [] = 0"
  by (simp add: total_burst_def)

lemma total_burst_Cons: "total_burst (p # ps) = burst p + total_burst ps"
  by (simp add: total_burst_def)

lemma total_burst_append: "total_burst (ps @ qs) = total_burst ps + total_burst qs"
  by (simp add: total_burst_def)

lemma total_burst_nonneg: "\<forall>p\<in>set ps. 1 \<le> burst p \<Longrightarrow> 0 \<le> total_burst ps"
  by (induction ps) (auto simp: total_burst_Nil total_burst_Cons)

lemma total_burst_member:
  "\<forall>p\<in>set ps. 1 \<le> burst p \<Longrightarrow> p \<in> set ps \<Longrightarrow> burst p \<le> total_burst ps"
proof (induction ps)
  case Nil
  then show ?case by simp
next
  case (Cons a ps)
  then have "0 \<le> total_burst ps" "1 \<le> burst a"
    by (simp_all add: total_burst_nonneg)
  with Cons show ?case
    by (auto simp: total_burst_Cons)
qed

lemma whole_of_mono: "set ps \<subseteq> set qs \<Longrightarrow> whole_of ps s \<Longrightarrow> whole_of qs s"
  by (auto simp: whole_of_def)

lemma whole_of_slice: "\<forall>p\<in>set ps. 1 \<le> burst p \<Longrightarrow> whole_of ps s \<Longrightarrow> slice_of ps s"
  by (auto simp: whole_of_def slice_of_def)

lemma whole_of_run_segment:
  "p \<in> set ps \<Longrightarrow> arrival p \<le> t \<Longrightarrow> whole_of ps (run_segment p t (t + burst p))"
  by (auto simp: whole_of_def run_segment_def)

text \<open>The sum of a time and a burst within the exact integers.\<close>

lemma js_add_time:
  "0 \<le> t \<Longrightarrow> 0 \<le> b \<Longrightarrow> t + b \<le> 2 ^ 53 \<Longrightarrow> js_add t b = t + b"
  by (intro js_add_exact) simp_all

subsection \<open>First come, first served\<close>

lemma fcfs_exact:
  assumes "\<forall>p\<in>set procs. 0 \<le> arrival p \<and> 1 \<le> burst p" and "0 \<le> time"
    and "time + total_burst procs \<le> 2 ^ 53"
    and "\<forall>p\<in>set procs. arrival p + total_burst procs \<le> 2 ^ 53"
  shows "contiguous_from time (fcfs_loop procs time [])
     \<and> (\<forall>s\<in>set (fcfs_loop procs time []). pid s = IDLE \<or> whole_of procs s)"
  using assms
proof (induction procs arbitrary: time)
  case Nil
  show ?case by simp
next
  case (Cons p procs)
  from Cons.prems(1) have p: "0 \<le> arrival p" "1 \<le> burst p"
    and rest: "\<forall>p\<in>set procs. 0 \<le> arrival p \<and> 1 \<le> burst p"
    by simp_all
  from rest have tb: "0 \<le> total_burst procs"
    by (simp add: total_burst_nonneg)
  from Cons.prems(4) p tb have later: "\<forall>r\<in>set procs. arrival r + total_burst procs \<le> 2 ^ 53"
    by (auto simp: total_burst_Cons)
  have mono: "whole_of (p # procs) s" if "whole_of procs s" for s
    using _ that by (rule whole_of_mono) auto
  show ?case
  proof (cases "time < arrival p")
    case True
    from Cons.prems(4) have b: "arrival p + burst p + total_burst procs \<le> 2 ^ 53"
      by (simp add: total_burst_Cons)
    with p tb have e: "js_add (arrival p) (burst p) = arrival p + burst p"
      by (intro js_add_time) simp_all
    from p have "0 \<le> arrival p + burst p" by simp
    from Cons.IH [OF rest this b later]
    have ih: "contiguous_from (arrival p + burst p) (fcfs_loop procs (arrival p + burst p) [])"
      "\<forall>s\<in>set (fcfs_loop procs (arrival p + burst p) []). pid s = IDLE \<or> whole_of (p # procs) s"
      using mono by auto
    have "whole_of (p # procs) (run_segment p (arrival p) (arrival p + burst p))"
      by (rule whole_of_run_segment) simp_all
    with True p ih show ?thesis
      by (simp add: fcfs_loop_Cons e idle_segment_def)
         (simp add: run_segment_def)
  next
    case False
    from Cons.prems(3) have b: "time + burst p + total_burst procs \<le> 2 ^ 53"
      by (simp add: total_burst_Cons)
    with Cons.prems(2) p tb have e: "js_add time (burst p) = time + burst p"
      by (intro js_add_time) simp_all
    from Cons.prems(2) p have "0 \<le> time + burst p" by simp
    from Cons.IH [OF rest this b later]
    have ih: "contiguous_from (time + burst p) (fcfs_loop procs (time + burst p) [])"
      "\<forall>s\<in>set (fcfs_loop procs (time + burst p) []). pid s = IDLE \<or> whole_of (p # procs) s"
      using mono by auto
    from False have "whole_of (p # procs) (run_segment p time (time + burst p))"
      by (intro whole_of_run_segment) simp_all
    with False p ih show ?thesis
      by (simp add: fcfs_loop_Cons e)
         (simp add: run_segment_def)
  qed
qed

text \<open>What the bound on the horizon gives for the sorted processes.\<close>

lemma horizon_bounds:
  assumes "well_formed processes" and "horizon processes \<le> 2 ^ 53"
  shows "\<forall>p\<in>set (js_sort cmp processes). 0 \<le> arrival p \<and> 1 \<le> burst p"
    and "total_burst (js_sort cmp processes) \<le> 2 ^ 53"
    and "\<forall>p\<in>set (js_sort cmp processes). arrival p + total_burst (js_sort cmp processes) \<le> 2 ^ 53"
proof -
  let ?procs = "js_sort cmp processes"
  from assms(1) show "\<forall>p\<in>set ?procs. 0 \<le> arrival p \<and> 1 \<le> burst p"
    by (simp add: well_formed_def set_js_sort)
  from assms(2) have h: "latest_arrival ?procs + total_burst ?procs \<le> 2 ^ 53"
    using horizon_js_sort [of cmp processes] by (simp add: horizon_def)
  with latest_arrival_nonneg [of ?procs] show "total_burst ?procs \<le> 2 ^ 53"
    by linarith
  show "\<forall>p\<in>set ?procs. arrival p + total_burst ?procs \<le> 2 ^ 53"
  proof
    fix p
    assume "p \<in> set ?procs"
    then have "arrival p \<le> latest_arrival ?procs"
      by (rule latest_arrival_ge)
    with h show "arrival p + total_burst ?procs \<le> 2 ^ 53"
      by linarith
  qed
qed

lemma fcfs_schedule_exact:
  assumes "well_formed processes" and "horizon processes \<le> 2 ^ 53"
  shows "contiguous_from 0 (scheduleFCFS processes)"
    and "\<forall>s\<in>set (scheduleFCFS processes). pid s = IDLE \<or> whole_of processes s"
proof -
  note b = horizon_bounds [OF assms, of "by_key arrival"]
  from fcfs_exact [OF b(1) _ _ b(3), of 0] b(2)
  have "contiguous_from 0 (scheduleFCFS processes)
      \<and> (\<forall>s\<in>set (scheduleFCFS processes). pid s = IDLE \<or> whole_of (js_sort (by_key arrival) processes) s)"
    by (simp add: scheduleFCFS_def)
  then show "contiguous_from 0 (scheduleFCFS processes)"
    and "\<forall>s\<in>set (scheduleFCFS processes). pid s = IDLE \<or> whole_of processes s"
    by (auto simp: whole_of_def set_js_sort)
qed

subsection \<open>The selection loop\<close>

lemma total_burst_pending:
  "total_burst (drop i remaining) =
     total_burst (takeWhile P (drop i remaining))
     + total_burst (drop (i + length (takeWhile P (drop i remaining))) remaining)"
proof -
  have "total_burst (drop i remaining)
      = total_burst (takeWhile P (drop i remaining) @ dropWhile P (drop i remaining))"
    by simp
  then show ?thesis
    by (simp only: total_burst_append drop_takeWhile_dropWhile)
qed

lemma select_loop_exact:
  assumes wf: "\<forall>p\<in>set remaining. 0 \<le> arrival p \<and> 1 \<le> burst p"
  shows "set ready \<subseteq> set remaining \<Longrightarrow> contiguous_from t0 segments \<Longrightarrow>
     end_of t0 segments = time \<Longrightarrow> 0 \<le> time \<Longrightarrow>
     time + total_burst ready + total_burst (drop i remaining) \<le> 2 ^ 53 \<Longrightarrow>
     \<forall>p\<in>set (drop i remaining).
        arrival p + total_burst ready + total_burst (drop i remaining) \<le> 2 ^ 53 \<Longrightarrow>
     \<forall>p\<in>set ready. arrival p \<le> time \<Longrightarrow>
     \<forall>s\<in>set segments. pid s = IDLE \<or> whole_of remaining s \<Longrightarrow>
     select_loop cmp remaining i ready time segments = Inr res \<Longrightarrow>
     contiguous_from t0 res \<and> (\<forall>s\<in>set res. pid s = IDLE \<or> whole_of remaining s)"
proof (induction i ready time segments rule: select_rounds_induct [where cmp = cmp and remaining = remaining])
  case (over i ready time segments)
  then show ?case by (simp add: select_loop_done)
next
  case (idle i time segments)
  let ?a = "arrival (remaining ! i)"
  from idle.hyps(1) have mem: "remaining ! i \<in> set (drop i remaining)"
    by (simp add: Cons_nth_drop_Suc [symmetric])
  then have "remaining ! i \<in> set remaining"
    by (rule in_set_dropD)
  with wf have a0: "0 \<le> ?a" by simp
  from idle.prems(6) mem have ab: "?a + total_burst [] + total_burst (drop i remaining) \<le> 2 ^ 53"
    by blast
  show ?case
  proof (rule idle.IH)
    show "set [] \<subseteq> set remaining" by simp
    show "contiguous_from t0 (segments @ [idle_segment time ?a])"
      using idle.prems(2,3) idle.hyps(2)
      by (simp add: contiguous_from_snoc idle_segment_def)
    show "end_of t0 (segments @ [idle_segment time ?a]) = ?a"
      by (simp add: end_of_snoc idle_segment_def)
    show "0 \<le> ?a" by (rule a0)
    show "?a + total_burst [] + total_burst (drop i remaining) \<le> 2 ^ 53" by (rule ab)
    show "\<forall>p\<in>set (drop i remaining).
        arrival p + total_burst [] + total_burst (drop i remaining) \<le> 2 ^ 53"
      by (rule idle.prems(6))
    show "\<forall>p\<in>set []. arrival p \<le> ?a" by simp
    show "\<forall>s\<in>set (segments @ [idle_segment time ?a]). pid s = IDLE \<or> whole_of remaining s"
      using idle.prems(8) by (simp add: pid_idle_segment)
    show "select_loop cmp remaining i [] ?a (segments @ [idle_segment time ?a]) = Inr res"
      using idle.prems(9) idle.hyps by (simp add: select_loop_idle)
  qed
next
  case (run i ready time segments p rest)
  let ?tw = "takeWhile (\<lambda>p. arrival p \<le> time) (drop i remaining)"
  let ?i' = "i + length ?tw"
  from run.hyps run.prems(1) have p: "p \<in> set remaining" and rest: "set rest \<subseteq> set remaining"
    by (rule set_sorted_ready)+
  from p wf have b1: "1 \<le> burst p" by simp
  from rest wf have rest1: "\<forall>r\<in>set rest. 1 \<le> burst r" by auto
  have "\<forall>r\<in>set (drop ?i' remaining). 1 \<le> burst r"
    using wf by (auto dest: in_set_dropD)
  then have pend0: "0 \<le> total_burst (drop ?i' remaining)"
    by (rule total_burst_nonneg)
  from rest1 have rest0: "0 \<le> total_burst rest"
    by (rule total_burst_nonneg)
  have "mset (p # rest) = mset (ready @ ?tw)"
    using run.hyps mset_js_sort [of cmp "ready @ ?tw"] by simp
  then have "total_burst (p # rest) = total_burst (ready @ ?tw)"
    by (rule total_burst_mset)
  then have split: "total_burst ready + total_burst (drop i remaining)
      = burst p + total_burst rest + total_burst (drop ?i' remaining)"
    using total_burst_pending [of i remaining "\<lambda>p. arrival p \<le> time"]
    by (simp add: total_burst_Cons total_burst_append)
  with run.prems(5) have bound: "time + burst p + total_burst rest + total_burst (drop ?i' remaining)
      \<le> 2 ^ 53"
    by linarith
  with run.prems(4) b1 rest0 pend0 have e: "js_add time (burst p) = time + burst p"
    by (intro js_add_time) simp_all
  have "set (p # rest) = set (ready @ ?tw)"
    using run.hyps set_js_sort [of cmp "ready @ ?tw"] by simp
  then have arrived: "arrival r \<le> time" if "r \<in> set (p # rest)" for r
    using that run.prems(7) by (auto dest: set_takeWhileD)
  have sub: "set (drop ?i' remaining) \<subseteq> set (drop i remaining)"
    using set_drop_split [of i remaining "\<lambda>p. arrival p \<le> time"] by blast
  have "contiguous_from t0 res \<and> (\<forall>s\<in>set res. pid s = IDLE \<or> whole_of remaining s)"
  proof (rule run.IH)
    show "set rest \<subseteq> set remaining" by (rule rest)
    show "contiguous_from t0 (segments @ [run_segment p time (js_add time (burst p))])"
      using run.prems(2,3) b1 by (simp add: contiguous_from_snoc run_segment_def e)
    show "end_of t0 (segments @ [run_segment p time (js_add time (burst p))]) = js_add time (burst p)"
      by (simp add: end_of_snoc run_segment_def)
    show "0 \<le> js_add time (burst p)"
      using run.prems(4) b1 by (simp add: e)
    show "js_add time (burst p) + total_burst rest + total_burst (drop ?i' remaining) \<le> 2 ^ 53"
      using bound by (simp add: e)
    show "\<forall>r\<in>set (drop ?i' remaining).
        arrival r + total_burst rest + total_burst (drop ?i' remaining) \<le> 2 ^ 53"
    proof
      fix r
      assume "r \<in> set (drop ?i' remaining)"
      with sub run.prems(6)
      have "arrival r + total_burst ready + total_burst (drop i remaining) \<le> 2 ^ 53"
        by blast
      with split b1 show "arrival r + total_burst rest + total_burst (drop ?i' remaining) \<le> 2 ^ 53"
        by linarith
    qed
    show "\<forall>r\<in>set rest. arrival r \<le> js_add time (burst p)"
    proof
      fix r
      assume "r \<in> set rest"
      then have "arrival r \<le> time"
        using arrived [of r] by simp
      with b1 show "arrival r \<le> js_add time (burst p)"
        by (simp add: e)
    qed
    have "whole_of remaining (run_segment p time (time + burst p))"
      using p arrived [of p] by (intro whole_of_run_segment) simp_all
    with run.prems(8)
    show "\<forall>s\<in>set (segments @ [run_segment p time (js_add time (burst p))]).
        pid s = IDLE \<or> whole_of remaining s"
      by (simp add: e)
    show "select_loop cmp remaining ?i' rest (js_add time (burst p))
        (segments @ [run_segment p time (js_add time (burst p))]) = Inr res"
      using run.prems(9) run.hyps by (simp add: select_loop_run)
  qed
  then show ?case .
qed

lemma select_schedule_exact:
  assumes "well_formed processes" and "horizon processes \<le> 2 ^ 53"
    and "select_loop cmp (js_sort (by_key arrival) processes) 0 [] 0 [] = Inr segments"
  shows "contiguous_from 0 segments"
    and "\<forall>s\<in>set segments. pid s = IDLE \<or> whole_of processes s"
proof -
  note b = horizon_bounds [OF assms(1,2), of "by_key arrival"]
  have "contiguous_from 0 segments
      \<and> (\<forall>s\<in>set segments. pid s = IDLE \<or> whole_of (js_sort (by_key arrival) processes) s)"
    using b(1) _ _ _ _ _ _ _ _ assms(3)
  proof (rule select_loop_exact)
    show "contiguous_from 0 []" by simp
  qed (use b in \<open>simp_all add: end_of_Nil total_burst_Nil\<close>)
  then show "contiguous_from 0 segments"
    and "\<forall>s\<in>set segments. pid s = IDLE \<or> whole_of processes s"
    by (auto simp: whole_of_def set_js_sort)
qed

text \<open>
  With unique ids, a process whose id is not that of the idle segments and is on exactly one
  segment, which is its whole run, is served its burst.
\<close>

lemma served_whole:
  assumes "\<forall>s\<in>set segments. pid s = IDLE \<or> whole_of processes s"
    and "distinct (map proc_id processes)" and "p \<in> set processes" and "proc_id p \<noteq> IDLE"
    and "occurrences segments (proc_id p) = 1"
  shows "served segments (proc_id p) = burst p"
proof -
  from assms(5) obtain s where s: "filter (\<lambda>s. pid s = proc_id p) segments = [s]"
    by (auto simp: occurrences_def length_Suc_conv)
  then have "s \<in> set (filter (\<lambda>s. pid s = proc_id p) segments)"
    by simp
  then have mem: "s \<in> set segments" and id: "pid s = proc_id p"
    by simp_all
  with assms(1,4) have "whole_of processes s"
    by auto
  then obtain p' where p': "p' \<in> set processes" "pid s = proc_id p'"
    "seg_end s = start s + burst p'"
    by (auto simp: whole_of_def)
  with id assms(2,3) have "p' = p"
    using same_id_same_process [of processes p' p] by simp
  with p'(3) s show ?thesis
    by (simp add: served_def)
qed

subsection \<open>Round robin\<close>

text \<open>
  The burst that remains in the table, over all processes. While the time plus this sum,
  and every pending arrival plus this sum, is at most \<open>2^53\<close>, the sums and differences of
  a round are exact. Then the segments so far partition the time from 0 to \<open>time\<close>, and
  each is an idle segment or a slice of a process of the set.
\<close>

definition rr_total_rem :: "process list \<Rightarrow> rr_state \<Rightarrow> int" where
  "rr_total_rem procs s = sum_list (map (\<lambda>p. rr_rem s (proc_id p)) procs)"

definition rr_exact_inv :: "process list \<Rightarrow> rr_state \<Rightarrow> bool" where
  "rr_exact_inv procs s \<longleftrightarrow>
     contiguous_from 0 (rr_segments s) \<and> end_of 0 (rr_segments s) = rr_time s
     \<and> (procs \<noteq> [] \<longrightarrow> rr_segments s \<noteq> [] \<or> rr_guard procs s)
     \<and> (\<forall>seg\<in>set (rr_segments s). pid seg = IDLE \<or> slice_of procs seg)
     \<and> rr_time s + rr_total_rem procs s \<le> 2 ^ 53
     \<and> (\<forall>p\<in>set (drop (rr_i s) procs). arrival p + rr_total_rem procs s \<le> 2 ^ 53)
     \<and> (\<forall>p\<in>set procs. rr_rem s (proc_id p) \<le> burst p)"

lemma rr_exact_parts:
  assumes "rr_exact_inv procs s"
  shows "contiguous_from 0 (rr_segments s)" and "end_of 0 (rr_segments s) = rr_time s"
    and "procs \<noteq> [] \<longrightarrow> rr_segments s \<noteq> [] \<or> rr_guard procs s"
    and "\<forall>seg\<in>set (rr_segments s). pid seg = IDLE \<or> slice_of procs seg"
    and "rr_time s + rr_total_rem procs s \<le> 2 ^ 53"
    and "\<forall>p\<in>set (drop (rr_i s) procs). arrival p + rr_total_rem procs s \<le> 2 ^ 53"
    and "\<forall>p\<in>set procs. rr_rem s (proc_id p) \<le> burst p"
  using assms by (simp_all add: rr_exact_inv_def)

lemma rr_rem_nonneg: "rr_table_inv procs s \<Longrightarrow> p \<in> set procs \<Longrightarrow> 0 \<le> rr_rem s (proc_id p)"
  by (cases "rr_remainingBurst s (proc_id p)") (auto simp: rr_rem_def rr_table_inv_def)

lemma sum_list_member_le:
  fixes f :: "'a \<Rightarrow> int"
  shows "\<forall>x\<in>set xs. 0 \<le> f x \<Longrightarrow> y \<in> set xs \<Longrightarrow> f y \<le> sum_list (map f xs)"
proof (induction xs)
  case Nil
  then show ?case by simp
next
  case (Cons a xs)
  then have "0 \<le> sum_list (map f xs)"
    by (intro sum_list_nonneg) auto
  with Cons show ?case by auto
qed

lemma rr_rem_le_total:
  "rr_table_inv procs s \<Longrightarrow> p \<in> set procs \<Longrightarrow> rr_rem s (proc_id p) \<le> rr_total_rem procs s"
  unfolding rr_total_rem_def
  by (rule sum_list_member_le [where f = "\<lambda>p. rr_rem s (proc_id p)"]) (simp_all add: rr_rem_nonneg)

lemma sum_list_key_update_int:
  fixes g g' :: "'k \<Rightarrow> int"
  assumes "distinct (map f xs)" and "c \<in> set xs" and "\<And>y. y \<noteq> f c \<Longrightarrow> g' y = g y"
  shows "sum_list (map (\<lambda>p. g' (f p)) xs) + g (f c) = sum_list (map (\<lambda>p. g (f p)) xs) + g' (f c)"
  using assms(1,2)
proof (induction xs)
  case Nil
  then show ?case by simp
next
  case (Cons y ys)
  show ?case
  proof (cases "y = c")
    case True
    from Cons.prems have "f c \<notin> f ` set ys"
      using True by simp
    then have "\<forall>p\<in>set ys. f p \<noteq> f c" by (metis imageI)
    then have "map (\<lambda>p. g' (f p)) ys = map (\<lambda>p. g (f p)) ys"
      by (simp add: assms(3))
    then have "sum_list (map (\<lambda>p. g' (f p)) ys) = sum_list (map (\<lambda>p. g (f p)) ys)"
      by (rule arg_cong)
    with True show ?thesis by simp
  next
    case False
    with Cons.prems have "c \<in> set ys" "distinct (map f ys)" "f y \<noteq> f c"
      by auto
    with Cons.IH assms(3) [of "f y"] show ?thesis by simp
  qed
qed

lemma rr_idle_exact:
  assumes ex: "rr_exact_inv procs s" and i: "rr_i s < length procs"
    and lt: "rr_time s < rr_time s'" and up: "rr_i s < rr_i s'"
    and seg: "rr_segments s' = rr_segments s @ [idle_segment (rr_time s) (rr_time s')]"
    and tm: "rr_time s' = arrival (procs ! rr_i s)"
    and tab: "rr_remainingBurst s' = rr_remainingBurst s"
  shows "rr_exact_inv procs s'"
proof -
  note parts = rr_exact_parts [OF ex]
  have rem: "rr_rem s' = rr_rem s"
    by (simp add: rr_rem_def fun_eq_iff tab)
  then have tot: "rr_total_rem procs s' = rr_total_rem procs s"
    by (simp add: rr_total_rem_def)
  from i have mem: "procs ! rr_i s \<in> set (drop (rr_i s) procs)"
    by (simp add: Cons_nth_drop_Suc [symmetric])
  from up have sub: "set (drop (rr_i s') procs) \<subseteq> set (drop (rr_i s) procs)"
    by (intro set_drop_subset_set_drop) simp
  show ?thesis
    unfolding rr_exact_inv_def
  proof (intro conjI)
    show "contiguous_from 0 (rr_segments s')"
      using parts(1,2) lt by (simp add: seg contiguous_from_snoc idle_segment_def)
    show "end_of 0 (rr_segments s') = rr_time s'"
      by (simp add: seg end_of_snoc idle_segment_def)
    show "procs \<noteq> [] \<longrightarrow> rr_segments s' \<noteq> [] \<or> rr_guard procs s'"
      by (simp add: seg)
    show "\<forall>seg\<in>set (rr_segments s'). pid seg = IDLE \<or> slice_of procs seg"
      using parts(4) by (simp add: seg pid_idle_segment)
    show "rr_time s' + rr_total_rem procs s' \<le> 2 ^ 53"
      using parts(6) mem by (simp add: tm tot)
    show "\<forall>p\<in>set (drop (rr_i s') procs). arrival p + rr_total_rem procs s' \<le> 2 ^ 53"
      using parts(6) sub by (auto simp: tot)
    show "\<forall>p\<in>set procs. rr_rem s' (proc_id p) \<le> burst p"
      using parts(7) by (simp add: rem)
  qed
qed

lemma rr_run_exact:
  assumes d: "distinct (map proc_id procs)" and q1: "1 \<le> q"
    and inv: "rr_inv procs s" and ex: "rr_exact_inv procs s"
    and rem: "rr_remainingBurst s (proc_id current) = Some rem" and rem1: "1 \<le> rem"
    and cur: "current \<in> set (take (rr_i s) procs)"
    and tm: "rr_time s' = js_add (rr_time s) (min q rem)"
    and up: "rr_i s \<le> rr_i s'"
    and seg: "rr_segments s' = rr_segments s @ [run_segment current (rr_time s) (rr_time s')]"
    and tab: "rr_remainingBurst s' =
          (if q < rem then (rr_remainingBurst s)(proc_id current \<mapsto> js_sub rem q)
           else (rr_remainingBurst s)(proc_id current := None))"
  shows "rr_time s' = rr_time s + min q rem"
    and "rr_remainingBurst s' =
          (if min q rem < rem then (rr_remainingBurst s)(proc_id current \<mapsto> rem - min q rem)
           else (rr_remainingBurst s)(proc_id current := None))"
    and "rr_exact_inv procs s'"
    and "rr_measure procs s' < rr_measure procs s"
proof -
  note parts = rr_exact_parts [OF ex]
  note ip = rr_inv_parts [OF inv]
  let ?sl = "min q rem"
  from q1 rem1 have sl: "1 \<le> ?sl" "?sl \<le> rem" by simp_all
  from cur have cp: "current \<in> set procs"
    by (rule in_set_takeD)
  have cr: "rr_rem s (proc_id current) = rem"
    by (simp add: rr_rem_def rem)
  from rr_rem_le_total [OF ip(3) cp] have rt: "rem \<le> rr_total_rem procs s"
    by (simp add: cr)
  from ip(4) have t0: "0 \<le> rr_time s"
    by (simp add: rr_time_inv_def)
  from parts(5) rt sl t0 have "rr_time s + ?sl \<le> 2 ^ 53" "rem \<le> 2 ^ 53"
    by linarith+
  with t0 sl show time': "rr_time s' = rr_time s + ?sl"
    unfolding tm by (intro js_add_time) simp_all
  have "js_sub rem q = rem - q" if "q < rem"
    using that q1 \<open>rem \<le> 2 ^ 53\<close> by (intro js_sub_exact) simp_all
  with tab show table': "rr_remainingBurst s' =
      (if ?sl < rem then (rr_remainingBurst s)(proc_id current \<mapsto> rem - ?sl)
       else (rr_remainingBurst s)(proc_id current := None))"
    by (auto simp: min_def)
  have cr': "rr_rem s' (proc_id current) = rem - ?sl"
    using sl by (auto simp: rr_rem_def table')
  have other: "rr_rem s' y = rr_rem s y" if "y \<noteq> proc_id current" for y
    using that by (simp add: rr_rem_def table')
  have "rr_total_rem procs s' + rr_rem s (proc_id current)
      = rr_total_rem procs s + rr_rem s' (proc_id current)"
    unfolding rr_total_rem_def using d cp other by (rule sum_list_key_update_int)
  then have tot: "rr_total_rem procs s' = rr_total_rem procs s - ?sl"
    by (simp add: cr cr')
  have "takeWhile (\<lambda>p. arrival p \<le> rr_time s) procs
      = take (length (takeWhile (\<lambda>p. arrival p \<le> rr_time s) procs)) procs"
    by (rule takeWhile_eq_take)
  with ip(1) have "take (rr_i s) procs = takeWhile (\<lambda>p. arrival p \<le> rr_time s) procs"
    by (simp add: rr_index_inv_def)
  with cur have arrived: "arrival current \<le> rr_time s"
    by (auto dest: set_takeWhileD)
  from parts(7) cp have "rem \<le> burst current"
    by (auto simp: cr [symmetric])
  with sl arrived cp have slice: "slice_of procs (run_segment current (rr_time s) (rr_time s + ?sl))"
    by (auto simp: slice_of_def run_segment_def)
  from up have sub: "set (drop (rr_i s') procs) \<subseteq> set (drop (rr_i s) procs)"
    by (rule set_drop_subset_set_drop)
  have same: "(proc_id p = proc_id current) = (p = current)" if "p \<in> set procs" for p
    using d that cp by (rule same_id_same_process)
  show "rr_exact_inv procs s'"
    unfolding rr_exact_inv_def
  proof (intro conjI)
    show "contiguous_from 0 (rr_segments s')"
      using parts(1,2) sl by (simp add: seg time' contiguous_from_snoc run_segment_def)
    show "end_of 0 (rr_segments s') = rr_time s'"
      by (simp add: seg end_of_snoc run_segment_def)
    show "procs \<noteq> [] \<longrightarrow> rr_segments s' \<noteq> [] \<or> rr_guard procs s'"
      by (simp add: seg)
    show "\<forall>seg\<in>set (rr_segments s'). pid seg = IDLE \<or> slice_of procs seg"
      using parts(4) slice by (simp add: seg time')
    show "rr_time s' + rr_total_rem procs s' \<le> 2 ^ 53"
      using parts(5) by (simp add: time' tot)
    show "\<forall>p\<in>set (drop (rr_i s') procs). arrival p + rr_total_rem procs s' \<le> 2 ^ 53"
    proof
      fix p
      assume "p \<in> set (drop (rr_i s') procs)"
      with sub parts(6) have "arrival p + rr_total_rem procs s \<le> 2 ^ 53"
        by blast
      with sl show "arrival p + rr_total_rem procs s' \<le> 2 ^ 53"
        unfolding tot by linarith
    qed
    show "\<forall>p\<in>set procs. rr_rem s' (proc_id p) \<le> burst p"
    proof
      fix p
      assume p: "p \<in> set procs"
      show "rr_rem s' (proc_id p) \<le> burst p"
      proof (cases "proc_id p = proc_id current")
        case True
        with parts(7) p sl show ?thesis
          by (auto simp: cr' cr [symmetric])
      next
        case False
        with parts(7) p show ?thesis
          by (simp add: other)
      qed
    qed
  qed
  have "sum_list (map (\<lambda>p. nat (rr_rem s' (proc_id p))) procs) + nat (rr_rem s (proc_id current))
      = sum_list (map (\<lambda>p. nat (rr_rem s (proc_id p))) procs) + nat (rr_rem s' (proc_id current))"
    using d cp by (rule sum_list_key_update) (simp add: other)
  then have "sum_list (map (\<lambda>p. nat (rr_rem s' (proc_id p))) procs)
      < sum_list (map (\<lambda>p. nat (rr_rem s (proc_id p))) procs)"
    using sl rem1 by (simp add: cr cr')
  moreover from up have "length procs - rr_i s' \<le> length procs - rr_i s"
    by simp
  ultimately show "rr_measure procs s' < rr_measure procs s"
    unfolding rr_measure_def by linarith
qed

subsection \<open>Conservation of the burst\<close>

text \<open>
  For an id: the time its segments have so far, and the remaining burst the table has for
  it, make up the burst of the processes with that id.
\<close>

definition rr_conserved :: "process list \<Rightarrow> rr_state \<Rightarrow> string \<Rightarrow> bool" where
  "rr_conserved procs s x \<longleftrightarrow> served (rr_segments s) x + rr_rem s x = proc_total burst procs x"

lemma served_Nil: "served [] x = 0"
  by (simp add: served_def)

lemma served_snoc:
  "served (segments @ [s]) x = served segments x + (if pid s = x then seg_end s - start s else 0)"
  by (simp add: served_def)

lemma proc_total_absent: "x \<notin> proc_id ` set procs \<Longrightarrow> proc_total v procs x = 0"
proof -
  assume "x \<notin> proc_id ` set procs"
  then have "filter (\<lambda>p. proc_id p = x) procs = []"
    by (auto simp: filter_empty_conv)
  then show ?thesis
    by (simp add: proc_total_def)
qed

lemma rr_init_conserved:
  assumes d: "distinct (map proc_id procs)"
  shows "rr_conserved procs (rr_init procs) x"
proof (cases "x \<in> proc_id ` set procs")
  case True
  then obtain p where p: "p \<in> set procs" "x = proc_id p"
    by blast
  with d show ?thesis
    by (simp add: rr_conserved_def rr_rem_def rr_init_eq served_Nil remaining_table_entry
        proc_total_distinct)
next
  case False
  then show ?thesis
    by (simp add: rr_conserved_def rr_rem_def rr_init_eq served_Nil remaining_table_other
        proc_total_absent)
qed

lemma rr_idle_conserved:
  assumes "x \<noteq> IDLE" and "rr_conserved procs s x"
    and "rr_segments s' = rr_segments s @ [idle_segment t t']"
    and "rr_remainingBurst s' = rr_remainingBurst s"
  shows "rr_conserved procs s' x"
  using assms by (simp add: rr_conserved_def rr_rem_def served_snoc pid_idle_segment)

lemma rr_run_conserved:
  assumes "rr_conserved procs s x"
    and "rr_remainingBurst s (proc_id current) = Some rem"
    and "rr_segments s' = rr_segments s @ [run_segment current t (t + min q rem)]"
    and "rr_remainingBurst s' =
          (if min q rem < rem then (rr_remainingBurst s)(proc_id current \<mapsto> rem - min q rem)
           else (rr_remainingBurst s)(proc_id current := None))"
  shows "rr_conserved procs s' x"
proof (cases "x = proc_id current")
  case True
  have "min q rem \<le> rem" by simp
  with True assms show ?thesis
    by (simp add: rr_conserved_def rr_rem_def served_snoc run_segment_def)
next
  case False
  with assms show ?thesis
    by (simp add: rr_conserved_def rr_rem_def served_snoc run_segment_def)
qed


subsection \<open>Every round within the exact integers, and the loop\<close>

lemma rr_exact_round:
  assumes d: "distinct (map proc_id procs)" and nums: "rr_fields procs" and q1: "1 \<le> q"
    and inv: "rr_inv procs s" and ex: "rr_exact_inv procs s" and guard: "rr_guard procs s"
  shows "\<exists>s'. rr_step procs q s = Inr s' \<and> rr_inv procs s' \<and> rr_exact_inv procs s'
     \<and> rr_measure procs s' < rr_measure procs s
     \<and> rr_time s < rr_time s' \<and> rr_i s \<le> rr_i s' \<and> rr_i s' \<le> length procs
     \<and> (\<exists>seg. rr_segments s' = rr_segments s @ [seg])
     \<and> (\<forall>x. x \<noteq> IDLE \<longrightarrow> rr_conserved procs s x \<longrightarrow> rr_conserved procs s' x)"
proof (cases "rr_queue s")
  case Nil
  with guard have i: "rr_i s < length procs"
    by (simp add: rr_guard_def)
  from rr_idle_round [OF d nums inv Nil i, of q] obtain s'
    where s': "rr_step procs q s = Inr s'" "rr_inv procs s'"
      "rr_measure procs s' < rr_measure procs s" "rr_time s < rr_time s'"
      "rr_i s < rr_i s'" "rr_i s' \<le> length procs"
      "rr_segments s' = rr_segments s @ [idle_segment (rr_time s) (rr_time s')]"
      "rr_time s' = arrival (procs ! rr_i s)"
      "rr_remainingBurst s' = rr_remainingBurst s"
    by blast
  have ex': "rr_exact_inv procs s'"
    using ex i s'(4,5,7,8,9) by (rule rr_idle_exact)
  have "rr_conserved procs s' x" if "x \<noteq> IDLE" "rr_conserved procs s x" for x
    using that s'(7,9) by (rule rr_idle_conserved)
  with s' ex' show ?thesis
    by (intro exI [of _ s']) simp
next
  case (Cons current rest)
  from rr_run_round [OF d q1 inv Cons] obtain rem s'
    where s': "rr_remainingBurst s (proc_id current) = Some rem" "1 \<le> rem"
      "current \<in> set (take (rr_i s) procs)"
      "rr_step procs q s = Inr s'" "rr_inv procs s'"
      "rr_time s' = js_add (rr_time s) (min q rem)"
      "rr_i s \<le> rr_i s'" "rr_i s' \<le> length procs"
      "rr_segments s' = rr_segments s @ [run_segment current (rr_time s) (rr_time s')]"
      "rr_remainingBurst s' =
          (if q < rem then (rr_remainingBurst s)(proc_id current \<mapsto> js_sub rem q)
           else (rr_remainingBurst s)(proc_id current := None))"
    by blast
  note run = rr_run_exact [OF d q1 inv ex s'(1,2,3,6,7,9,10)]
  from q1 s'(2) have lt: "rr_time s < rr_time s'"
    by (simp add: run(1))
  have "rr_conserved procs s' x" if "rr_conserved procs s x" for x
    using that s'(1) s'(9) [unfolded run(1)] run(2) by (rule rr_run_conserved)
  then show ?thesis
    using s'(4,5,7,8,9) run(3,4) lt by (intro exI [of _ s']) simp
qed


lemma rr_loop_result:
  assumes d: "distinct (map proc_id procs)" and nums: "rr_fields procs" and q1: "1 \<le> q"
    and inv: "rr_inv procs s" and ex: "rr_exact_inv procs s"
    and cons: "\<forall>x. x \<noteq> IDLE \<longrightarrow> rr_conserved procs s x"
  shows "\<exists>s'. rr_loop procs q s = Some (Inr (rr_segments s')) \<and> rr_inv procs s'
     \<and> rr_exact_inv procs s'
     \<and> \<not> rr_guard procs s' \<and> (\<forall>x. x \<noteq> IDLE \<longrightarrow> rr_conserved procs s' x)"
proof -
  let ?I = "\<lambda>s. rr_inv procs s \<and> rr_exact_inv procs s
      \<and> (\<forall>x. x \<noteq> IDLE \<longrightarrow> rr_conserved procs s x)"
  have "\<exists>s'. rr_step procs q s = Inr s' \<and> ?I s' \<and> rr_measure procs s' < rr_measure procs s"
    if "?I s" "rr_guard procs s" for s
    using rr_exact_round [OF d nums q1, of s] that by blast
  from rr_loop_rule [of ?I procs q "rr_measure procs", OF this] inv ex cons
  show ?thesis by blast
qed

text \<open>The first state.\<close>

lemma rr_init_total:
  assumes "distinct (map proc_id procs)"
  shows "rr_total_rem procs (rr_init procs) = total_burst procs"
proof -
  have "map (\<lambda>p. rr_rem (rr_init procs) (proc_id p)) procs = map burst procs"
    using assms by (simp add: rr_rem_def rr_init_eq remaining_table_entry)
  then show ?thesis
    by (simp only: rr_total_rem_def total_burst_def)
qed

lemma rr_init_exact:
  assumes d: "distinct (map proc_id procs)"
    and b: "total_burst procs \<le> 2 ^ 53"
    and a: "\<forall>p\<in>set procs. arrival p + total_burst procs \<le> 2 ^ 53"
  shows "rr_exact_inv procs (rr_init procs)"
proof -
  let ?tw = "takeWhile (\<lambda>p. arrival p \<le> 0) procs"
  have "?tw \<noteq> [] \<or> length ?tw < length procs" if "procs \<noteq> []"
    using that by (cases "?tw = []") simp_all
  then have g: "procs \<noteq> [] \<longrightarrow> rr_guard procs (rr_init procs)"
    by (simp add: rr_guard_def rr_init_eq)
  have rem: "rr_rem (rr_init procs) (proc_id p) = burst p" if "p \<in> set procs" for p
    using d that by (simp add: rr_rem_def rr_init_eq remaining_table_entry)
  have "\<forall>p\<in>set (drop (rr_i (rr_init procs)) procs). arrival p + total_burst procs \<le> 2 ^ 53"
    using a by (auto dest: in_set_dropD)
  then have pend: "\<forall>p\<in>set (drop (rr_i (rr_init procs)) procs).
      arrival p + rr_total_rem procs (rr_init procs) \<le> 2 ^ 53"
    by (simp add: rr_init_total [OF d])
  have seg: "rr_segments (rr_init procs) = []" and tm: "rr_time (rr_init procs) = 0"
    by (simp_all add: rr_init_eq)
  show ?thesis
    unfolding rr_exact_inv_def
  proof (intro conjI)
    show "contiguous_from 0 (rr_segments (rr_init procs))"
      by (simp add: seg)
    show "end_of 0 (rr_segments (rr_init procs)) = rr_time (rr_init procs)"
      by (simp add: seg tm end_of_Nil)
    show "procs \<noteq> [] \<longrightarrow> rr_segments (rr_init procs) \<noteq> [] \<or> rr_guard procs (rr_init procs)"
      using g by simp
    show "\<forall>seg\<in>set (rr_segments (rr_init procs)). pid seg = IDLE \<or> slice_of procs seg"
      by (simp add: seg)
    show "rr_time (rr_init procs) + rr_total_rem procs (rr_init procs) \<le> 2 ^ 53"
      using b by (simp add: tm rr_init_total [OF d])
    show "\<forall>p\<in>set (drop (rr_i (rr_init procs)) procs).
        arrival p + rr_total_rem procs (rr_init procs) \<le> 2 ^ 53"
      by (rule pend)
    show "\<forall>p\<in>set procs. rr_rem (rr_init procs) (proc_id p) \<le> burst p"
      using rem by simp
  qed
qed

text \<open>
  A well-formed process set with its horizon within the exact integers: its fields are
  doubles, and the first state of round robin has both invariants.
\<close>

lemma horizon_double_fields:
  assumes "well_formed processes" and "horizon processes \<le> 2 ^ 53"
  shows "rr_fields (js_sort cmp processes)"
proof -
  note b = horizon_bounds [OF assms, of cmp]
  have "0 \<le> arrival p \<and> is_double (arrival p) \<and> 1 \<le> burst p \<and> is_double (burst p)"
    if p: "p \<in> set (js_sort cmp processes)" for p
  proof -
    from b(1) p have p1: "0 \<le> arrival p" "1 \<le> burst p" by simp_all
    from b(1) have "0 \<le> total_burst (js_sort cmp processes)"
      by (intro total_burst_nonneg) simp
    with b(3) p have "arrival p \<le> 2 ^ 53" by fastforce
    moreover from total_burst_member [OF _ p] b(1,2) have "burst p \<le> 2 ^ 53"
      by fastforce
    ultimately show ?thesis
      using p1 by (simp add: is_double_small)
  qed
  then show ?thesis
    by (simp add: rr_fields_def)
qed

lemma rr_exact_initial:
  assumes "well_formed processes" and "horizon processes \<le> 2 ^ 53"
  shows "distinct (map proc_id (js_sort (by_key arrival) processes))"
    and "rr_fields (js_sort (by_key arrival) processes)"
    and "rr_inv (js_sort (by_key arrival) processes) (rr_init (js_sort (by_key arrival) processes))"
    and "rr_exact_inv (js_sort (by_key arrival) processes)
           (rr_init (js_sort (by_key arrival) processes))"
proof -
  let ?procs = "js_sort (by_key arrival) processes"
  note b = horizon_bounds [OF assms, of "by_key arrival"]
  from assms(1) show d: "distinct (map proc_id ?procs)"
    by (simp add: well_formed_def sorted_processes)
  from assms show nums: "rr_fields ?procs"
    by (rule horizon_double_fields)
  from d nums show "rr_inv ?procs (rr_init ?procs)"
    by (rule rr_init_inv)
  from d b(2,3) show "rr_exact_inv ?procs (rr_init ?procs)"
    by (rule rr_init_exact)
qed

text \<open>The schedule of round robin: all that the claims below need of it.\<close>

lemma rr_schedule:
  assumes wf: "well_formed processes" and h: "horizon processes \<le> 2 ^ 53" and q1: "1 \<le> q"
  shows "\<exists>segments. scheduleRoundRobin processes q = Some (Inr segments)
     \<and> contiguous_from 0 segments \<and> (processes \<noteq> [] \<longrightarrow> segments \<noteq> [])
     \<and> (\<forall>s\<in>set segments. pid s = IDLE \<or> slice_of processes s)
     \<and> (\<forall>p\<in>set processes. proc_id p \<noteq> IDLE \<longrightarrow> served segments (proc_id p) = burst p)"
proof -
  let ?procs = "js_sort (by_key arrival) processes"
  note init = rr_exact_initial [OF wf h]
  have "\<forall>x. x \<noteq> IDLE \<longrightarrow> rr_conserved ?procs (rr_init ?procs) x"
    using init(1) by (simp add: rr_init_conserved)
  from rr_loop_result [OF init(1,2) q1 init(3,4) this] obtain s'
    where s': "rr_loop ?procs q (rr_init ?procs) = Some (Inr (rr_segments s'))"
      "rr_inv ?procs s'" "rr_exact_inv ?procs s'" "\<not> rr_guard ?procs s'"
      "\<forall>x. x \<noteq> IDLE \<longrightarrow> rr_conserved ?procs s' x"
    by blast
  note parts = rr_inv_parts [OF s'(2)]
  note ex = rr_exact_parts [OF s'(3)]
  from s'(4) have over: "rr_queue s' = []" "drop (rr_i s') ?procs = []"
    by (simp_all add: rr_guard_def)
  have res: "scheduleRoundRobin processes q = Some (Inr (rr_segments s'))"
    using s'(1) by (simp add: scheduleRoundRobin_def Let_def)
  have ne: "rr_segments s' \<noteq> []" if "processes \<noteq> []"
    using ex(3) s'(4) that by (simp add: js_sort_Nil_iff)
  have sl: "\<forall>s\<in>set (rr_segments s'). pid s = IDLE \<or> slice_of processes s"
    using ex(4) by (auto simp: slice_of_def set_js_sort)
  have "served (rr_segments s') (proc_id p) = burst p"
    if p: "p \<in> set processes" and x: "proc_id p \<noteq> IDLE" for p
  proof -
    from p have p': "p \<in> set ?procs"
      by (simp add: set_js_sort)
    with parts(3) over have "rr_remainingBurst s' (proc_id p) = None"
      by (simp add: rr_table_inv_def)
    then have "rr_rem s' (proc_id p) = 0"
      by (simp add: rr_rem_def)
    moreover from s'(5) x have "rr_conserved ?procs s' (proc_id p)"
      by simp
    ultimately have "served (rr_segments s') (proc_id p) = proc_total burst ?procs (proc_id p)"
      by (simp add: rr_conserved_def)
    with init(1) p' show ?thesis
      by (simp add: proc_total_distinct)
  qed
  with res ex(1) ne sl show ?thesis
    by (intro exI [of _ "rr_segments s'"]) simp
qed

section \<open>The schedules partition time\<close>

text \<open>
  Idle time is explicit in a segment list when every segment is marked \<open>IDLE\<close> or is a
  slice of a process of the set, which has arrived when the slice starts, and the slices of
  each process (whose id is not the mark) make up its burst: in a partition of time, the
  time that no process has is then in segments marked \<open>IDLE\<close>.
\<close>

definition idle_explicit :: "process list \<Rightarrow> segment list \<Rightarrow> bool" where
  "idle_explicit processes segments \<longleftrightarrow>
     (\<forall>s\<in>set segments. pid s = IDLE \<or> slice_of processes s)
     \<and> (\<forall>p\<in>set processes. proc_id p \<noteq> IDLE \<longrightarrow> served segments (proc_id p) = burst p)"

lemma whole_runs_explicit:
  assumes wf: "well_formed processes"
    and whole: "\<forall>s\<in>set segments. pid s = IDLE \<or> whole_of processes s"
    and once: "\<And>x. x \<noteq> IDLE \<Longrightarrow>
        seg_total (\<lambda>s. 1) segments x = proc_total (\<lambda>p. 1) processes x"
  shows "idle_explicit processes segments"
proof -
  from wf have d: "distinct (map proc_id processes)" and b: "\<forall>p\<in>set processes. 1 \<le> burst p"
    by (simp_all add: well_formed_def)
  have "served segments (proc_id p) = burst p"
    if p: "p \<in> set processes" and x: "proc_id p \<noteq> IDLE" for p
  proof -
    from once [OF x] d p have "occurrences segments (proc_id p) = 1"
      by (rule occurrences_one) simp
    with whole d p x show ?thesis
      by (rule served_whole)
  qed
  moreover have "pid s = IDLE \<or> slice_of processes s" if "s \<in> set segments" for s
    using whole that whole_of_slice [OF b, of s] by blast
  ultimately show ?thesis
    by (simp add: idle_explicit_def)
qed

lemma fcfs_schedule:
  assumes wf: "well_formed processes" and h: "horizon processes \<le> 2 ^ 53"
  shows "contiguous_from 0 (scheduleFCFS processes)"
    and "processes \<noteq> [] \<longrightarrow> scheduleFCFS processes \<noteq> []"
    and "idle_explicit processes (scheduleFCFS processes)"
proof -
  note ex = fcfs_schedule_exact [OF wf h]
  show "contiguous_from 0 (scheduleFCFS processes)" by (rule ex(1))
  show "processes \<noteq> [] \<longrightarrow> scheduleFCFS processes \<noteq> []"
    by (simp add: scheduleFCFS_def fcfs_nonempty js_sort_Nil_iff)
  show "idle_explicit processes (scheduleFCFS processes)"
    using wf ex(2) by (rule whole_runs_explicit) (simp add: fcfs_schedule_totals)
qed

lemma select_schedule:
  assumes wf: "well_formed processes" and h: "horizon processes \<le> 2 ^ 53"
  shows "\<exists>segments. select_loop cmp (js_sort (by_key arrival) processes) 0 [] 0 [] = Inr segments
     \<and> contiguous_from 0 segments \<and> (processes \<noteq> [] \<longrightarrow> segments \<noteq> [])
     \<and> idle_explicit processes segments"
proof -
  let ?procs = "js_sort (by_key arrival) processes"
  obtain segments where res: "select_loop cmp ?procs 0 [] 0 [] = Inr segments"
    using select_loop_returns by blast
  note ex = select_schedule_exact [OF wf h res]
  have "segments \<noteq> []" if "processes \<noteq> []"
    using select_loop_length [OF res] that by (simp add: length_js_sort)
  moreover have "idle_explicit processes segments"
    using wf ex(2)
  proof (rule whole_runs_explicit)
    show "seg_total (\<lambda>s. 1) segments x = proc_total (\<lambda>p. 1) processes x" if "x \<noteq> IDLE" for x
      using _ that res by (rule select_schedule_totals) simp
  qed
  ultimately show ?thesis
    using res ex(1) by blast
qed

lemma partition_of_contiguous:
  assumes "contiguous_from 0 segments" and "processes \<noteq> [] \<longrightarrow> segments \<noteq> []"
  shows "time_partition segments \<and> (processes \<noteq> [] \<longrightarrow> segments \<noteq> [] \<and> start (hd segments) = 0)"
  using assms contiguous_from_partition [of 0 segments] contiguous_from_hd [of 0 segments]
  by blast

text \<open>
  C1, as amended. For every well-formed process set whose latest arrival plus total burst is
  at most \<open>2^53\<close>, and every quantum of at least 1 for round robin, each of the four
  policies returns a segment list (the three loops return, and without a fault) that is a
  partition of time: the starts do not decrease, every segment ends where the next one
  starts, every segment ends after it starts, and for a process set that is not empty the
  list is not empty and its first segment starts at 0. Idle time is explicit: every segment
  is marked \<open>IDLE\<close> or is a slice of a process that has arrived, of at most its burst, and
  every process whose id is not the mark has exactly its burst in its slices.
\<close>

theorem schedules_partition_time:
  assumes "well_formed processes" and "horizon processes \<le> 2 ^ 53" and "1 \<le> q"
  shows "\<exists>sjf pri rr.
     scheduleSJF processes = Inr sjf \<and> schedulePriority processes = Inr pri
     \<and> scheduleRoundRobin processes q = Some (Inr rr)
     \<and> (\<forall>segments\<in>{scheduleFCFS processes, sjf, pri, rr}.
           time_partition segments
           \<and> (processes \<noteq> [] \<longrightarrow> segments \<noteq> [] \<and> start (hd segments) = 0)
           \<and> idle_explicit processes segments)"
proof -
  note f = fcfs_schedule [OF assms(1,2)]
  from f(1,2) have fcfs: "time_partition (scheduleFCFS processes)
      \<and> (processes \<noteq> [] \<longrightarrow> scheduleFCFS processes \<noteq> [] \<and> start (hd (scheduleFCFS processes)) = 0)"
    by (rule partition_of_contiguous)
  from select_schedule [OF assms(1,2), of "by_key burst"] obtain sjf
    where sjf: "scheduleSJF processes = Inr sjf"
      "time_partition sjf \<and> (processes \<noteq> [] \<longrightarrow> sjf \<noteq> [] \<and> start (hd sjf) = 0)"
      "idle_explicit processes sjf"
    unfolding scheduleSJF_def using partition_of_contiguous by blast
  from select_schedule [OF assms(1,2), of priority_cmp] obtain pri
    where pri: "schedulePriority processes = Inr pri"
      "time_partition pri \<and> (processes \<noteq> [] \<longrightarrow> pri \<noteq> [] \<and> start (hd pri) = 0)"
      "idle_explicit processes pri"
    unfolding schedulePriority_def using partition_of_contiguous by blast
  from rr_schedule [OF assms] obtain rr
    where rr: "scheduleRoundRobin processes q = Some (Inr rr)"
      "time_partition rr \<and> (processes \<noteq> [] \<longrightarrow> rr \<noteq> [] \<and> start (hd rr) = 0)"
      "idle_explicit processes rr"
    unfolding idle_explicit_def using partition_of_contiguous by blast
  from fcfs f(3) sjf pri rr show ?thesis
    by (intro exI [of _ sjf] exI [of _ pri] exI [of _ rr]) simp
qed

text \<open>A process set that idles first and between two processes.\<close>

definition idle_processes :: "process list" where
  "idle_processes =
     [\<lparr>proc_id = ''P1'', arrival = 8, burst = 3, priority = 2\<rparr>,
      \<lparr>proc_id = ''P2'', arrival = 1, burst = 3, priority = 1\<rparr>]"

theorem schedules_partition_time_witness:
  "well_formed idle_processes \<and> horizon idle_processes \<le> 2 ^ 53 \<and> (1 :: int) \<le> 2
   \<and> scheduleRoundRobin idle_processes 2 =
       Some (Inr [\<lparr>pid = ''IDLE'', start = 0, seg_end = 1\<rparr>, \<lparr>pid = ''P2'', start = 1, seg_end = 3\<rparr>,
                  \<lparr>pid = ''P2'', start = 3, seg_end = 4\<rparr>, \<lparr>pid = ''IDLE'', start = 4, seg_end = 8\<rparr>,
                  \<lparr>pid = ''P1'', start = 8, seg_end = 10\<rparr>, \<lparr>pid = ''P1'', start = 10, seg_end = 11\<rparr>])
   \<and> time_partition
        [\<lparr>pid = ''IDLE'', start = 0, seg_end = 1\<rparr>, \<lparr>pid = ''P2'', start = 1, seg_end = 3\<rparr>,
         \<lparr>pid = ''P2'', start = 3, seg_end = 4\<rparr>, \<lparr>pid = ''IDLE'', start = 4, seg_end = 8\<rparr>,
         \<lparr>pid = ''P1'', start = 8, seg_end = 10\<rparr>, \<lparr>pid = ''P1'', start = 10, seg_end = 11\<rparr>]
   \<and> time_partition (scheduleFCFS idle_processes)
   \<and> start (hd (scheduleFCFS idle_processes)) = 0
   \<and> idle_explicit idle_processes (scheduleFCFS idle_processes)"
proof -
  have wf: "well_formed idle_processes"
    by (simp add: well_formed_def idle_processes_def)
  have h: "horizon idle_processes \<le> 2 ^ 53"
    by (simp add: horizon_def latest_arrival_def total_burst_def idle_processes_def)
  have q: "(1 :: int) \<le> 2" by simp
  have ne: "idle_processes \<noteq> []"
    by (simp add: idle_processes_def)
  have rr: "scheduleRoundRobin idle_processes 2 =
       Some (Inr [\<lparr>pid = ''IDLE'', start = 0, seg_end = 1\<rparr>, \<lparr>pid = ''P2'', start = 1, seg_end = 3\<rparr>,
                  \<lparr>pid = ''P2'', start = 3, seg_end = 4\<rparr>, \<lparr>pid = ''IDLE'', start = 4, seg_end = 8\<rparr>,
                  \<lparr>pid = ''P1'', start = 8, seg_end = 10\<rparr>, \<lparr>pid = ''P1'', start = 10, seg_end = 11\<rparr>])"
    by code_simp
  from schedules_partition_time [OF wf h q] rr ne wf h show ?thesis
    by auto
qed

text \<open>
  The claim as it was stated has no bound on the times. The numbers of the code are doubles:
  for a process that arrives at \<open>2^53\<close> with burst 1, the end of its segment, the double
  nearest to \<open>2^53 + 1\<close>, is \<open>2^53\<close>, its start.
\<close>

definition late_process :: process where
  "late_process = \<lparr>proc_id = ''B'', arrival = 9007199254740992, burst = 1, priority = 1\<rparr>"

lemma late_schedule:
  "scheduleFCFS [late_process]
     = [\<lparr>pid = ''IDLE'', start = 0, seg_end = 9007199254740992\<rparr>,
        \<lparr>pid = ''B'', start = 9007199254740992, seg_end = 9007199254740992\<rparr>]"
  by code_simp

theorem schedules_partition_time_counterexample:
  "well_formed [late_process]
   \<and> scheduleFCFS [late_process]
       = [\<lparr>pid = ''IDLE'', start = 0, seg_end = 9007199254740992\<rparr>,
          \<lparr>pid = ''B'', start = 9007199254740992, seg_end = 9007199254740992\<rparr>]
   \<and> \<not> time_partition (scheduleFCFS [late_process])"
  by (simp add: late_schedule time_partition_def) (simp add: well_formed_def late_process_def)

section \<open>Conservation\<close>

text \<open>
  C3, as amended. For a well-formed process set in which no process has the id of the idle
  segments, \<open>IDLE\<close>, and whose latest arrival plus total burst is at most \<open>2^53\<close>, and for
  each of the four policies (round robin with a quantum of at least 1), the durations of
  the segments that bear the id of a process add up to the burst of the process.
\<close>

theorem conservation:
  assumes "well_formed processes" and "IDLE \<notin> set (map proc_id processes)"
    and "horizon processes \<le> 2 ^ 53" and "1 \<le> q" and "p \<in> set processes"
  shows "served (scheduleFCFS processes) (proc_id p) = burst p
     \<and> (\<exists>segments. scheduleSJF processes = Inr segments \<and> served segments (proc_id p) = burst p)
     \<and> (\<exists>segments. schedulePriority processes = Inr segments
           \<and> served segments (proc_id p) = burst p)
     \<and> (\<exists>segments. scheduleRoundRobin processes q = Some (Inr segments)
           \<and> served segments (proc_id p) = burst p)"
proof (intro conjI)
  from assms have x: "proc_id p \<noteq> IDLE"
    by (simp add: not_idle_id)
  from fcfs_schedule(3) [OF assms(1,3)] assms(5) x
  show "served (scheduleFCFS processes) (proc_id p) = burst p"
    by (simp add: idle_explicit_def)
  from select_schedule [OF assms(1,3), of "by_key burst"] assms(5) x
  show "\<exists>segments. scheduleSJF processes = Inr segments \<and> served segments (proc_id p) = burst p"
    by (auto simp: scheduleSJF_def idle_explicit_def)
  from select_schedule [OF assms(1,3), of priority_cmp] assms(5) x
  show "\<exists>segments. schedulePriority processes = Inr segments
      \<and> served segments (proc_id p) = burst p"
    by (auto simp: schedulePriority_def idle_explicit_def)
  from rr_schedule [OF assms(1,3,4)] assms(5) x
  show "\<exists>segments. scheduleRoundRobin processes q = Some (Inr segments)
      \<and> served segments (proc_id p) = burst p"
    by blast
qed

theorem conservation_witness:
  "well_formed demo_processes \<and> IDLE \<notin> set (map proc_id demo_processes)
   \<and> horizon demo_processes \<le> 2 ^ 53 \<and> (1 :: int) \<le> 2
   \<and> \<lparr>proc_id = ''P3'', arrival = 2, burst = 6, priority = 3\<rparr> \<in> set demo_processes
   \<and> served (scheduleFCFS demo_processes) ''P3'' = 6
   \<and> scheduleRoundRobin demo_processes 2 =
       Some (Inr [\<lparr>pid = ''P1'', start = 0, seg_end = 2\<rparr>, \<lparr>pid = ''P2'', start = 2, seg_end = 4\<rparr>,
                  \<lparr>pid = ''P3'', start = 4, seg_end = 6\<rparr>, \<lparr>pid = ''P1'', start = 6, seg_end = 8\<rparr>,
                  \<lparr>pid = ''P2'', start = 8, seg_end = 9\<rparr>, \<lparr>pid = ''P3'', start = 9, seg_end = 11\<rparr>,
                  \<lparr>pid = ''P3'', start = 11, seg_end = 13\<rparr>])
   \<and> served [\<lparr>pid = ''P1'', start = 0, seg_end = 2\<rparr>, \<lparr>pid = ''P2'', start = 2, seg_end = 4\<rparr>,
              \<lparr>pid = ''P3'', start = 4, seg_end = 6\<rparr>, \<lparr>pid = ''P1'', start = 6, seg_end = 8\<rparr>,
              \<lparr>pid = ''P2'', start = 8, seg_end = 9\<rparr>, \<lparr>pid = ''P3'', start = 9, seg_end = 11\<rparr>,
              \<lparr>pid = ''P3'', start = 11, seg_end = 13\<rparr>] ''P3'' = 6"
proof -
  let ?p = "\<lparr>proc_id = ''P3'', arrival = 2, burst = 6, priority = 3\<rparr>"
  have wf: "well_formed demo_processes"
    by (simp add: well_formed_def demo_processes_def)
  have idle: "IDLE \<notin> set (map proc_id demo_processes)"
    by (simp add: demo_processes_def IDLE_def)
  have h: "horizon demo_processes \<le> 2 ^ 53"
    by (simp add: horizon_def latest_arrival_def total_burst_def demo_processes_def)
  have q: "(1 :: int) \<le> 2" by simp
  have p: "?p \<in> set demo_processes"
    by (simp add: demo_processes_def)
  have rr: "scheduleRoundRobin demo_processes 2 =
       Some (Inr [\<lparr>pid = ''P1'', start = 0, seg_end = 2\<rparr>, \<lparr>pid = ''P2'', start = 2, seg_end = 4\<rparr>,
                  \<lparr>pid = ''P3'', start = 4, seg_end = 6\<rparr>, \<lparr>pid = ''P1'', start = 6, seg_end = 8\<rparr>,
                  \<lparr>pid = ''P2'', start = 8, seg_end = 9\<rparr>, \<lparr>pid = ''P3'', start = 9, seg_end = 11\<rparr>,
                  \<lparr>pid = ''P3'', start = 11, seg_end = 13\<rparr>])"
    by code_simp
  from conservation [OF wf idle h q p] rr wf idle h p show ?thesis
    by auto
qed

text \<open>
  The claim as it was stated does not keep the id \<open>IDLE\<close> away from the processes, and has
  no bound on the times. For a process with that id that arrives at 1 with burst 1, the
  segments with its id last 2. For the process that arrives at \<open>2^53\<close> with burst 1, the
  segment with its id lasts 0.
\<close>

theorem conservation_idle_id_counterexample:
  "well_formed [\<lparr>proc_id = ''IDLE'', arrival = 1, burst = 1, priority = 1\<rparr>]
   \<and> burst \<lparr>proc_id = ''IDLE'', arrival = 1, burst = 1, priority = 1\<rparr> = 1
   \<and> served (scheduleFCFS [\<lparr>proc_id = ''IDLE'', arrival = 1, burst = 1, priority = 1\<rparr>]) ''IDLE'' = 2
   \<and> scheduleRoundRobin [\<lparr>proc_id = ''IDLE'', arrival = 1, burst = 1, priority = 1\<rparr>] 1
       = Some (Inr [\<lparr>pid = ''IDLE'', start = 0, seg_end = 1\<rparr>, \<lparr>pid = ''IDLE'', start = 1, seg_end = 2\<rparr>])
   \<and> well_formed [late_process] \<and> IDLE \<notin> set (map proc_id [late_process])
   \<and> burst late_process = 1
   \<and> served (scheduleFCFS [late_process]) (proc_id late_process) = 0"
  by code_simp

section \<open>Termination\<close>








section \<open>Metrics: finish times and averages\<close>

text \<open>
  The specification's words: the finish time of a process is the end of the last, that is
  the highest-end, segment that is not idle and bears its id, and 0 when there is none;
  turnaround is finish minus arrival, waiting is turnaround minus burst, and the two
  results are the averages over all processes (the divisor is 1 for no process), to two
  decimals.
\<close>

definition segment_ends :: "segment list \<Rightarrow> string \<Rightarrow> int list" where
  "segment_ends segments x = map seg_end (filter (\<lambda>s. pid s \<noteq> IDLE \<and> pid s = x) segments)"

definition spec_finish :: "segment list \<Rightarrow> string \<Rightarrow> int" where
  "spec_finish segments x =
     (if segment_ends segments x = [] then 0 else Max (set (segment_ends segments x)))"

definition spec_turnaround :: "segment list \<Rightarrow> process \<Rightarrow> int" where
  "spec_turnaround segments p = spec_finish segments (proc_id p) - arrival p"

definition spec_waiting :: "segment list \<Rightarrow> process \<Rightarrow> int" where
  "spec_waiting segments p = spec_turnaround segments p - burst p"

definition spec_metrics :: "process list \<Rightarrow> segment list \<Rightarrow> metrics" where
  "spec_metrics processes segments =
     (let n = (if processes = [] then 1 else int (length processes))
      in \<lparr>avgWaiting = Some (toFixed2 (js_div (sum_list (map (spec_waiting segments) processes)) n)),
          avgTurnaround =
            Some (toFixed2 (js_div (sum_list (map (spec_turnaround segments) processes)) n))\<rparr>)"

text \<open>
  What the code keeps for an id that is no property of \<^verbatim>\<open>Object.prototype\<close>: the end of the
  last segment in list order. The magnitude of the numbers that enter the totals: the finish
  times, arrivals and bursts of the processes.
\<close>

definition last_finish :: "segment list \<Rightarrow> string \<Rightarrow> int" where
  "last_finish segments x =
     (if segment_ends segments x = [] then 0 else last (segment_ends segments x))"

definition metrics_magnitude :: "process list \<Rightarrow> segment list \<Rightarrow> int" where
  "metrics_magnitude processes segments =
     sum_list (map (\<lambda>p. \<bar>last_finish segments (proc_id p)\<bar> + \<bar>arrival p\<bar> + \<bar>burst p\<bar>) processes)"

definition plain_ids :: "process list \<Rightarrow> bool" where
  "plain_ids processes \<longleftrightarrow> (\<forall>p\<in>set processes. proc_id p \<notin> set object_prototype_keys)"

text \<open>What \<open>computeMetrics\<close> divides when the sums are exact: the totals and the divisor.\<close>

definition total_waiting :: "process list \<Rightarrow> segment list \<Rightarrow> int" where
  "total_waiting processes segments =
     sum_list (map (\<lambda>p. last_finish segments (proc_id p) - arrival p - burst p) processes)"

definition total_turnaround :: "process list \<Rightarrow> segment list \<Rightarrow> int" where
  "total_turnaround processes segments =
     sum_list (map (\<lambda>p. last_finish segments (proc_id p) - arrival p) processes)"

definition divisor :: "process list \<Rightarrow> int" where
  "divisor processes = (if processes = [] then 1 else int (length processes))"

lemma finish_loop_eq:
  "x \<noteq> ''__proto__'' \<Longrightarrow> finish_loop segments finish x =
     (if segment_ends segments x = [] then finish x else Some (last (segment_ends segments x)))"
  by (induction segments arbitrary: finish) (auto simp: segment_ends_def)

lemma proto_is_key: "''__proto__'' \<in> set object_prototype_keys"
  by (simp add: object_prototype_keys_def)

lemma finish_value_plain:
  assumes "x \<notin> set object_prototype_keys"
  shows "finish_value (finish_loop segments Map.empty) x = Some (last_finish segments x)"
proof -
  from assms proto_is_key have "x \<noteq> ''__proto__''" by auto
  with assms show ?thesis
    by (simp add: finish_value_def finish_loop_eq last_finish_def)
qed

lemma js_plus_exact:
  "\<bar>a\<bar> \<le> 2 ^ 53 \<Longrightarrow> \<bar>b\<bar> \<le> 2 ^ 53 \<Longrightarrow> \<bar>a + b\<bar> \<le> 2 ^ 53 \<Longrightarrow>
     js_plus (Some a) (Some b) = Some (a + b)"
  by (simp add: js_plus_def small_not_infinite js_add_exact)

lemma js_minus_exact:
  "\<bar>a\<bar> \<le> 2 ^ 53 \<Longrightarrow> \<bar>b\<bar> \<le> 2 ^ 53 \<Longrightarrow> \<bar>a - b\<bar> \<le> 2 ^ 53 \<Longrightarrow>
     js_minus (Some a) (Some b) = Some (a - b)"
  using js_plus_exact [of a "- b"] by (simp add: js_minus_def)

lemma metrics_magnitude_Cons:
  "metrics_magnitude (p # processes) segments =
     \<bar>last_finish segments (proc_id p)\<bar> + \<bar>arrival p\<bar> + \<bar>burst p\<bar>
     + metrics_magnitude processes segments"
  by (simp add: metrics_magnitude_def)

lemma metrics_magnitude_nonneg: "0 \<le> metrics_magnitude processes segments"
  unfolding metrics_magnitude_def by (rule sum_list_nonneg) auto

lemma totals_loop_exact:
  assumes "plain_ids processes"
    and "\<bar>w\<bar> + metrics_magnitude processes segments \<le> 2 ^ 53"
    and "\<bar>t\<bar> + metrics_magnitude processes segments \<le> 2 ^ 53"
  shows "totals_loop (finish_loop segments Map.empty) processes (Some w, Some t) =
     (Some (w + total_waiting processes segments), Some (t + total_turnaround processes segments))"
  using assms
proof (induction processes arbitrary: w t)
  case Nil
  show ?case by (simp add: total_waiting_def total_turnaround_def)
next
  case (Cons p processes)
  let ?f = "last_finish segments (proc_id p)"
  let ?tat = "?f - arrival p" and ?wt = "?f - arrival p - burst p"
  let ?m = "metrics_magnitude processes segments"
  note m0 = metrics_magnitude_nonneg [of processes segments]
  from Cons.prems(1) have plain: "proc_id p \<notin> set object_prototype_keys"
    and rest: "plain_ids processes"
    by (simp_all add: plain_ids_def)
  from Cons.prems(2,3)
  have w: "\<bar>w\<bar> + (\<bar>?f\<bar> + \<bar>arrival p\<bar> + \<bar>burst p\<bar>) + ?m \<le> 2 ^ 53"
    and t: "\<bar>t\<bar> + (\<bar>?f\<bar> + \<bar>arrival p\<bar> + \<bar>burst p\<bar>) + ?m \<le> 2 ^ 53"
    by (simp_all add: metrics_magnitude_Cons)
  have fv: "finish_value (finish_loop segments Map.empty) (proc_id p) = Some ?f"
    using plain by (rule finish_value_plain)
  have tat: "js_minus (Some ?f) (Some (arrival p)) = Some ?tat"
    using w m0 by (intro js_minus_exact) linarith+
  have wt: "js_minus (Some ?tat) (Some (burst p)) = Some ?wt"
    using w m0 by (intro js_minus_exact) linarith+
  have accw: "js_plus (Some w) (Some ?wt) = Some (w + ?wt)"
    using w m0 by (intro js_plus_exact) linarith+
  have acct: "js_plus (Some t) (Some ?tat) = Some (t + ?tat)"
    using t m0 by (intro js_plus_exact) linarith+
  have "\<bar>w + ?wt\<bar> + ?m \<le> 2 ^ 53" "\<bar>t + ?tat\<bar> + ?m \<le> 2 ^ 53"
    using w t by linarith+
  from Cons.IH [OF rest this]
  show ?case
    by (simp add: fv tat wt accw acct Let_def total_waiting_def total_turnaround_def)
qed

lemma computeMetrics_exact:
  assumes "plain_ids processes" and "metrics_magnitude processes segments \<le> 2 ^ 53"
  shows "computeMetrics processes segments =
     \<lparr>avgWaiting = Some (toFixed2 (js_div (total_waiting processes segments) (divisor processes))),
      avgTurnaround =
        Some (toFixed2 (js_div (total_turnaround processes segments) (divisor processes)))\<rparr>"
  using totals_loop_exact [OF assms(1), of 0 segments 0] assms(2)
  by (simp add: computeMetrics_def divisor_def Let_def)

lemma sorted_last_Max:
  fixes xs :: "int list"
  shows "sorted xs \<Longrightarrow> xs \<noteq> [] \<Longrightarrow> last xs = Max (set xs)"
proof (induction xs)
  case Nil
  then show ?case by simp
next
  case (Cons x xs)
  show ?case
  proof (cases "xs = []")
    case True
    then show ?thesis by simp
  next
    case False
    with Cons have "last xs = Max (set xs)" by simp
    moreover from Cons.prems False have "x \<le> Max (set xs)"
      by (simp add: Max_ge_iff) (metis last_in_set)
    ultimately show ?thesis
      using False by (simp add: max_def)
  qed
qed

lemma sorted_segment_ends:
  "sorted (map seg_end segments) \<Longrightarrow> sorted (segment_ends segments x)"
  unfolding segment_ends_def by (rule sorted_filter)

lemma last_finish_spec:
  "sorted (map seg_end segments) \<Longrightarrow> last_finish segments x = spec_finish segments x"
  by (simp add: last_finish_def spec_finish_def sorted_last_Max sorted_segment_ends)


lemma spec_totals:
  assumes "sorted (map seg_end segments)"
  shows "sum_list (map (spec_waiting segments) processes) = total_waiting processes segments"
    and "sum_list (map (spec_turnaround segments) processes) = total_turnaround processes segments"
  using assms
  by (simp_all add: total_waiting_def total_turnaround_def spec_waiting_def [abs_def]
      spec_turnaround_def [abs_def] last_finish_spec)

text \<open>
  C5, as amended. For a segment list whose ends are in non-decreasing order (every list in
  which each segment ends where the next one starts is one), processes whose ids are not
  names of properties that an object inherits, and finish times, arrivals and bursts whose
  magnitudes add up to at most \<open>2^53\<close>, \<open>computeMetrics\<close> returns what the specification
  words: the finish time of a process, as the code reads it, is the end of its last
  segment, which is its highest end (0 without a segment), turnaround is finish minus
  arrival, waiting is turnaround minus burst, and the results are the two averages, to two
  decimals.
\<close>

theorem computeMetrics_spec:
  assumes "sorted (map seg_end segments)" and "plain_ids processes"
    and "metrics_magnitude processes segments \<le> 2 ^ 53"
  shows "computeMetrics processes segments = spec_metrics processes segments
     \<and> (\<forall>p\<in>set processes.
          finish_value (finish_loop segments Map.empty) (proc_id p)
            = Some (spec_finish segments (proc_id p)))"
proof
  show "computeMetrics processes segments = spec_metrics processes segments"
    using spec_totals [OF assms(1), of processes]
    by (simp add: computeMetrics_exact [OF assms(2,3)] spec_metrics_def divisor_def Let_def)
  show "\<forall>p\<in>set processes.
      finish_value (finish_loop segments Map.empty) (proc_id p)
        = Some (spec_finish segments (proc_id p))"
    using assms(1,2) by (simp add: plain_ids_def finish_value_plain last_finish_spec)
qed

text \<open>
  The scenario of the specification: \<open>P1(0, 4)\<close>, \<open>P2(1, 3)\<close> and the segments
  \<open>P1:0-4, P2:4-7\<close> give the averages 1.5 and 5.
\<close>

theorem computeMetrics_spec_witness:
  "sorted (map seg_end [\<lparr>pid = ''P1'', start = 0, seg_end = 4\<rparr>, \<lparr>pid = ''P2'', start = 4, seg_end = 7\<rparr>])
   \<and> plain_ids [\<lparr>proc_id = ''P1'', arrival = 0, burst = 4, priority = 2\<rparr>,
                \<lparr>proc_id = ''P2'', arrival = 1, burst = 3, priority = 1\<rparr>]
   \<and> metrics_magnitude
        [\<lparr>proc_id = ''P1'', arrival = 0, burst = 4, priority = 2\<rparr>,
         \<lparr>proc_id = ''P2'', arrival = 1, burst = 3, priority = 1\<rparr>]
        [\<lparr>pid = ''P1'', start = 0, seg_end = 4\<rparr>, \<lparr>pid = ''P2'', start = 4, seg_end = 7\<rparr>] \<le> 2 ^ 53
   \<and> computeMetrics
        [\<lparr>proc_id = ''P1'', arrival = 0, burst = 4, priority = 2\<rparr>,
         \<lparr>proc_id = ''P2'', arrival = 1, burst = 3, priority = 1\<rparr>]
        [\<lparr>pid = ''P1'', start = 0, seg_end = 4\<rparr>, \<lparr>pid = ''P2'', start = 4, seg_end = 7\<rparr>]
       = \<lparr>avgWaiting = Some (3 / 2), avgTurnaround = Some 5\<rparr>"
proof -
  let ?ps = "[\<lparr>proc_id = ''P1'', arrival = 0, burst = 4, priority = 2\<rparr>,
         \<lparr>proc_id = ''P2'', arrival = 1, burst = 3, priority = 1\<rparr>]"
  let ?segs = "[\<lparr>pid = ''P1'', start = 0, seg_end = 4\<rparr>, \<lparr>pid = ''P2'', start = 4, seg_end = 7\<rparr>]"
  have s: "sorted (map seg_end ?segs)" by simp
  have ids: "plain_ids ?ps"
    by (simp add: plain_ids_def object_prototype_keys_def)
  have "metrics_magnitude ?ps ?segs = 19"
    by code_simp
  then have m: "metrics_magnitude ?ps ?segs \<le> 2 ^ 53"
    by simp
  have "spec_metrics ?ps ?segs = \<lparr>avgWaiting = Some (3 / 2), avgTurnaround = Some 5\<rparr>"
    by code_simp
  with computeMetrics_spec [OF s ids m] s ids m show ?thesis
    by simp
qed

text \<open>
  The claim as it was stated asks only for non-decreasing starts. Then the last segment of a
  process need not be the one with the highest end: for \<open>P1:0-10, P1:1-2\<close> the code takes
  the finish time 2, the specification's words 10. It is stated for every id: a process
  with the id \<^verbatim>\<open>__proto__\<close> has no finish time in the table, whatever its segments, and both
  averages are \<^verbatim>\<open>NaN\<close>. And it has no bound on the numbers: the totals are sums of doubles,
  and for three processes with the turnarounds \<open>2^53\<close>, 1 and 1 (a schedule of shortest job
  first) the total is \<open>2^53\<close>, not \<open>2^53 + 2\<close>.
\<close>

definition long_processes :: "process list" where
  "long_processes =
     [\<lparr>proc_id = ''A'', arrival = 0, burst = 9007199254740990, priority = 1\<rparr>,
      \<lparr>proc_id = ''B'', arrival = 0, burst = 1, priority = 1\<rparr>,
      \<lparr>proc_id = ''C'', arrival = 1, burst = 1, priority = 1\<rparr>]"

definition long_segments :: "segment list" where
  "long_segments =
     [\<lparr>pid = ''B'', start = 0, seg_end = 1\<rparr>, \<lparr>pid = ''C'', start = 1, seg_end = 2\<rparr>,
      \<lparr>pid = ''A'', start = 2, seg_end = 9007199254740992\<rparr>]"

theorem computeMetrics_start_order_counterexample:
  "sorted (map start [\<lparr>pid = ''P1'', start = 0, seg_end = 10\<rparr>, \<lparr>pid = ''P1'', start = 1, seg_end = 2\<rparr>])
   \<and> computeMetrics [\<lparr>proc_id = ''P1'', arrival = 0, burst = 1, priority = 1\<rparr>]
        [\<lparr>pid = ''P1'', start = 0, seg_end = 10\<rparr>, \<lparr>pid = ''P1'', start = 1, seg_end = 2\<rparr>]
       = \<lparr>avgWaiting = Some 1, avgTurnaround = Some 2\<rparr>
   \<and> spec_metrics [\<lparr>proc_id = ''P1'', arrival = 0, burst = 1, priority = 1\<rparr>]
        [\<lparr>pid = ''P1'', start = 0, seg_end = 10\<rparr>, \<lparr>pid = ''P1'', start = 1, seg_end = 2\<rparr>]
       = \<lparr>avgWaiting = Some 9, avgTurnaround = Some 10\<rparr>
   \<and> computeMetrics [\<lparr>proc_id = ''__proto__'', arrival = 0, burst = 4, priority = 1\<rparr>]
        [\<lparr>pid = ''__proto__'', start = 0, seg_end = 4\<rparr>]
       = \<lparr>avgWaiting = None, avgTurnaround = None\<rparr>
   \<and> spec_metrics [\<lparr>proc_id = ''__proto__'', arrival = 0, burst = 4, priority = 1\<rparr>]
        [\<lparr>pid = ''__proto__'', start = 0, seg_end = 4\<rparr>]
       = \<lparr>avgWaiting = Some 0, avgTurnaround = Some 4\<rparr>
   \<and> scheduleSJF long_processes = Inr long_segments
   \<and> sorted (map start long_segments)
   \<and> avgTurnaround (computeMetrics long_processes long_segments) = Some (6004799503160661 / 2)
   \<and> avgTurnaround (spec_metrics long_processes long_segments) = Some (6004799503160663 / 2)"
  by code_simp

section \<open>The rounding of the averages\<close>

subsection \<open>The error of the double quotient\<close>







subsection \<open>Rounding to two decimals\<close>




















end
